theory Spec2Isabelle
  imports Complex_Main
begin

unbundle bit_operations_syntax

section \<open>Python values and failures\<close>

text \<open>
  The exceptions the modelled code can raise.  \<open>Blocked\<close> stands for
  \<open>LifoQueue.get()\<close> on an empty queue, which waits forever in the
  single-threaded program instead of raising.
\<close>

datatype error = ValueError | IndexError | KeyError | Blocked

text \<open>
  Python reads an index below zero from the end of the sequence:
  \<open>wrap_index n i\<close> is the position meant by \<open>i\<close> in a sequence of
  \<open>n\<close> items.  \<open>xs[i]\<close> raises when that position does not exist;
  the slices \<open>xs[:i]\<close> and \<open>xs[i:]\<close> cut at the nearest end instead.
\<close>

definition wrap_index :: "nat \<Rightarrow> int \<Rightarrow> int" where
  "wrap_index n i = (if i < 0 then i + int n else i)"

definition py_index :: "'a list \<Rightarrow> int \<Rightarrow> error + 'a" where
  "py_index xs i =
     (if wrap_index (length xs) i < 0 \<or> int (length xs) \<le> wrap_index (length xs) i
      then Inl IndexError
      else Inr (xs ! nat (wrap_index (length xs) i)))"

definition slice_to :: "'a list \<Rightarrow> int \<Rightarrow> 'a list" where
  "slice_to xs i = take (nat (wrap_index (length xs) i)) xs"

definition slice_from :: "'a list \<Rightarrow> int \<Rightarrow> 'a list" where
  "slice_from xs i = drop (nat (wrap_index (length xs) i)) xs"

text \<open>
  \<open>random.randint(a, b)\<close> raises on an empty range; otherwise it returns the
  drawn value \<open>r\<close>, which \<open>randint_ok\<close> confines to the range.
\<close>

definition randint :: "int \<Rightarrow> int \<Rightarrow> int \<Rightarrow> error + int" where
  "randint a b r = (if b < a then Inl ValueError else Inr r)"

definition randint_ok :: "int \<Rightarrow> int \<Rightarrow> int \<Rightarrow> bool" where
  "randint_ok a b r = (a \<le> r \<and> r \<le> b)"

text \<open>
  \<open>random.choices(population, weights)[0]\<close> with the drawn position \<open>k\<close>.
  The library raises when the two sequences differ in length, when the
  population is empty and when the weights do not add up to something
  positive.  A position can be drawn only where the weight is positive
  (\<open>choices_ok\<close>).
\<close>

definition choices :: "'a list \<Rightarrow> ('w :: linordered_idom) list \<Rightarrow> nat \<Rightarrow> error + 'a" where
  "choices population weights k =
     (if length weights \<noteq> length population then Inl ValueError
      else if population = [] then Inl IndexError
      else if sum_list weights \<le> 0 then Inl ValueError
      else Inr (population ! k))"

definition choices_ok :: "'a list \<Rightarrow> ('w :: linordered_idom) list \<Rightarrow> nat \<Rightarrow> bool" where
  "choices_ok population weights k = (k < length population \<and> k < length weights \<and> 0 < weights ! k)"

text \<open>
  \<open>random.sample(range(n), n)\<close> returns the positions \<open>0 .. n-1\<close> in some
  order.
\<close>

definition sample_ok :: "nat \<Rightarrow> nat list \<Rightarrow> bool" where
  "sample_ok n perm = (distinct perm \<and> length perm = n \<and> list_all (\<lambda>i. i < n) perm)"


section \<open>String helpers of plant.py\<close>

fun random_character_loop :: "string \<Rightarrow> string \<Rightarrow> nat list \<Rightarrow> int" where
  "random_character_loop string characters [] = - 1"
| "random_character_loop string characters (i # rest) =
     (if string ! i \<in> set characters then int i
      else random_character_loop string characters rest)"

text \<open>\<open>perm\<close> is the order \<open>random.sample(range(len(string)), len(string))\<close> drew.\<close>

definition get_random_character_index :: "string \<Rightarrow> string \<Rightarrow> nat list \<Rightarrow> int" where
  "get_random_character_index string characters perm =
     random_character_loop string characters perm"

definition get_characters_in_string :: "string \<Rightarrow> string \<Rightarrow> string" where
  "get_characters_in_string character_set string = filter (\<lambda>x. x \<in> set string) character_set"

definition replace :: "string \<Rightarrow> string \<Rightarrow> string \<Rightarrow> nat list \<Rightarrow> string" where
  "replace string target replacement perm =
     (let i = get_random_character_index string target perm
      in slice_to string i @ replacement @ slice_from string (i + 1))"

definition get_random_index :: "'a list \<Rightarrow> int \<Rightarrow> error + int" where
  "get_random_index obj r = randint 0 (int (length obj) - 1) r"

text \<open>
  The \<open>while True\<close> loop of \<open>get_bracket_indexes\<close>.  Reading
  \<open>string[index]\<close> past the end raises, which ends the loop.
\<close>

function bracket_loop :: "string \<Rightarrow> int \<Rightarrow> int \<Rightarrow> error + (int \<times> int)" where
  "bracket_loop string start_index index =
     (if index < - int (length string) \<or> int (length string) \<le> index then Inl IndexError
      else
        (let c = string ! nat (wrap_index (length string) index);
             start_index' = (if c = CHR ''['' then index else start_index)
         in if c = CHR '']'' then Inr (start_index', index)
            else bracket_loop string start_index' (index + 1)))"
  by pat_completeness auto
termination
  by (relation "measure (\<lambda>(string, start_index, index). nat (int (length string) - index))") auto

definition get_bracket_indexes :: "string \<Rightarrow> nat list \<Rightarrow> error + (int \<times> int)" where
  "get_bracket_indexes string perm =
     bracket_loop string (get_random_character_index string ''['' perm)
       (get_random_character_index string ''['' perm)"

definition get_random_rotation :: "int \<Rightarrow> char \<Rightarrow> int \<Rightarrow> error + string" where
  "get_random_rotation max_n sign r =
     (case randint 1 max_n r of Inl e \<Rightarrow> Inl e | Inr n \<Rightarrow> Inr (replicate (nat n) sign))"


section \<open>The mutation operators\<close>

text \<open>
  Everything one call of \<open>get_mutated_branch\<close> may draw from the random
  source, one field per call site.
\<close>

record draws =
  mutation :: nat        \<comment> \<open>\<open>random.choices(range(len(weights)), weights)[0]\<close>\<close>
  sample :: "nat list"   \<comment> \<open>\<open>random.sample\<close> in \<open>get_random_character_index\<close>\<close>
  copies :: int          \<comment> \<open>\<open>random.randint(1, 2)\<close> of operator 0\<close>
  rot_sign :: char       \<comment> \<open>\<open>random.choice(('+', '-'))\<close>\<close>
  rot_count :: int       \<comment> \<open>\<open>random.randint(1, max)\<close>\<close>
  with_F :: bool         \<comment> \<open>\<open>random.random() < 0.75\<close>\<close>
  F_pos :: int           \<comment> \<open>\<open>random.randint(1, len(rotation))\<close>\<close>
  position :: int        \<comment> \<open>\<open>random.randint(0, len(obj) - 1)\<close> in \<open>get_random_index\<close>\<close>
  forward :: char        \<comment> \<open>\<open>random.choice(('F', 'f', 'f'))\<close>\<close>

definition get_random_branch :: "'a draws_scheme \<Rightarrow> error + string" where
  "get_random_branch d =
     (case get_random_rotation 4 (rot_sign d) (rot_count d) of
        Inl e \<Rightarrow> Inl e
      | Inr rotation \<Rightarrow>
          (if with_F d then
             (case randint 1 (int (length rotation)) (F_pos d) of
                Inl e \<Rightarrow> Inl e
              | Inr i \<Rightarrow> Inr (''['' @ (slice_to rotation i @ ''F'' @ slice_from rotation i) @ ''X]''))
           else Inr (''['' @ rotation @ ''X]'')))"

definition chars_of :: "string \<Rightarrow> int" where
  "chars_of branch =
     sum_list (map (\<lambda>(i, char). (if char \<in> set branch then 1 else 0) * 2 ^ i)
                   (enumerate 0 ''FfXx[]+-''))"

definition mutation_weights :: "string \<Rightarrow> int list" where
  "mutation_weights branch =
     (let weights = [4, 4, 4, 4, 3, 3, 2, 3, 3, 2];
          chars = chars_of branch;
          weights = (if chars AND 192 = 0 then weights[0 := 0, 1 := 0] else weights);
          weights = (if chars AND 1 = 0 then weights[2 := 0] else weights);
          weights = (if chars AND 2 = 0 then weights[3 := 0, 4 := 0] else weights);
          weights = (if chars AND 195 = 0 then weights[5 := 0] else weights);
          weights = (if chars AND 4 = 0 then weights[6 := 0] else weights);
          weights = (if chars AND 8 = 0 then weights[7 := 0] else weights);
          weights = (if chars AND 16 = 0 then weights[8 := 0] else weights);
          weights = (if 4 < count_list branch CHR ''X'' then weights[5 := 0, 7 := 0] else weights)
      in weights)"

definition get_mutated_branch :: "string \<Rightarrow> 'a draws_scheme \<Rightarrow> error + string" where
  "get_mutated_branch branch d =
     (let weights = mutation_weights branch
      in case choices [0 ..< length weights] weights (mutation d) of
           Inl e \<Rightarrow> Inl e
         | Inr m \<Rightarrow>
             (if m = 0 then
                (let i = get_random_character_index branch
                           (get_characters_in_string ''+-'' branch) (sample d)
                 in case py_index branch i of
                      Inl e \<Rightarrow> Inl e
                    | Inr c \<Rightarrow>
                        (case randint 1 2 (copies d) of
                           Inl e \<Rightarrow> Inl e
                         | Inr k \<Rightarrow> Inr (slice_to branch i @ replicate (nat k) c @ slice_from branch i)))
              else if m = 1 then
                (let i = get_random_character_index branch
                           (get_characters_in_string ''+-'' branch) (sample d)
                 in Inr (slice_to branch i @ slice_from branch (i + 1)))
              else if m = 2 then Inr (replace branch ''F'' ''f'' (sample d))
              else if m = 3 then Inr (replace branch ''f'' ''F'' (sample d))
              else if m = 4 then
                (let i = get_random_character_index branch ''f'' (sample d)
                 in Inr (slice_to branch i @ slice_from branch (i + 1)))
              else if m = 5 then
                (let i = get_random_character_index branch
                           (get_characters_in_string ''Ff+-'' branch) (sample d)
                 in case get_random_branch d of
                      Inl e \<Rightarrow> Inl e
                    | Inr sub \<Rightarrow> Inr (slice_to branch i @ sub @ slice_from branch i))
              else if m = 6 then Inr (replace branch ''X'' ''x'' (sample d))
              else if m = 7 then Inr (replace branch ''x'' ''X'' (sample d))
              else if m = 8 then
                (case get_bracket_indexes branch (sample d) of
                   Inl e \<Rightarrow> Inl e
                 | Inr (i, j) \<Rightarrow> Inr (slice_to branch i @ slice_from branch (j + 1)))
              else if m = 9 then
                (case get_random_index branch (position d) of
                   Inl e \<Rightarrow> Inl e
                 | Inr i \<Rightarrow> Inr (slice_to branch i @ [forward d] @ slice_from branch i))
              else Inr branch))"

text \<open>The draws the random source can really deliver for a given branch.\<close>

definition draws_ok :: "string \<Rightarrow> 'a draws_scheme \<Rightarrow> bool" where
  "draws_ok branch d =
     (choices_ok [0 ..< length (mutation_weights branch)] (mutation_weights branch) (mutation d) \<and>
      sample_ok (length branch) (sample d) \<and>
      randint_ok 1 2 (copies d) \<and>
      (rot_sign d = CHR ''+'' \<or> rot_sign d = CHR ''-'') \<and>
      randint_ok 1 4 (rot_count d) \<and>
      randint_ok 1 (rot_count d) (F_pos d) \<and>
      (branch = [] \<or> randint_ok 0 (int (length branch) - 1) (position d)) \<and>
      (forward d = CHR ''F'' \<or> forward d = CHR ''f''))"


section \<open>The L-system engine of l_system.py\<close>

text \<open>
  A rule is a replacement string or a weighted choice between candidate
  strings.  The rule table is a dictionary keyed by strings; it is kept as
  an association list and read with \<open>map_of\<close>.
\<close>

datatype rule = Fixed string | Weighted "string list" "real list"

type_synonym rules = "(string \<times> rule) list"

record lsystem =
  alphabet :: string
  rules :: rules
  axiom :: string
  state :: string

definition reset :: "'a lsystem_scheme \<Rightarrow> 'a lsystem_scheme" where
  "reset l = l\<lparr>state := axiom l\<rparr>"

text \<open>
  The inner loop of \<open>step\<close> over the symbols of the old state; \<open>i\<close> is the
  position of \<open>symbol\<close> in it and \<open>pick i\<close> the candidate the random source
  draws there.
\<close>

fun rewrite :: "rules \<Rightarrow> (nat \<Rightarrow> nat) \<Rightarrow> nat \<Rightarrow> string \<Rightarrow> string \<Rightarrow> error + string" where
  "rewrite rs pick i [] next_state = Inr next_state"
| "rewrite rs pick i (symbol # rest) next_state =
     (case map_of rs [symbol] of
        Some symbol_rule \<Rightarrow>
          (case symbol_rule of
             Fixed replacement \<Rightarrow> rewrite rs pick (Suc i) rest (next_state @ replacement)
           | Weighted population weights \<Rightarrow>
               (case choices population weights (pick i) of
                  Inl e \<Rightarrow> Inl e
                | Inr chosen \<Rightarrow> rewrite rs pick (Suc i) rest (next_state @ chosen)))
      | None \<Rightarrow> rewrite rs pick (Suc i) rest (next_state @ [symbol]))"

text \<open>The outer loop \<open>for _ in range(n)\<close>; \<open>pass\<close> counts the passes done.\<close>

fun step_loop :: "rules \<Rightarrow> (nat \<Rightarrow> nat \<Rightarrow> nat) \<Rightarrow> nat \<Rightarrow> nat \<Rightarrow> string \<Rightarrow> error + string" where
  "step_loop rs picks pass 0 st = Inr st"
| "step_loop rs picks pass (Suc n) st =
     (case rewrite rs (picks pass) 0 st [] of
        Inl e \<Rightarrow> Inl e
      | Inr next_state \<Rightarrow> step_loop rs picks (Suc pass) n next_state)"

text \<open>\<open>range(n)\<close> is empty for a negative \<open>n\<close>.\<close>

definition step :: "'a lsystem_scheme \<Rightarrow> (nat \<Rightarrow> nat \<Rightarrow> nat) \<Rightarrow> int \<Rightarrow> error + 'a lsystem_scheme" where
  "step l picks n =
     (case step_loop (rules l) picks 0 (nat n) (state l) of
        Inl e \<Rightarrow> Inl e
      | Inr st \<Rightarrow> Inr (l\<lparr>state := st\<rparr>))"

text \<open>A rule table all of whose rules are fixed strings.\<close>

fun is_fixed :: "rule \<Rightarrow> bool" where
  "is_fixed (Fixed replacement) = True"
| "is_fixed (Weighted population weights) = False"

definition all_fixed :: "rules \<Rightarrow> bool" where
  "all_fixed rs = list_all (\<lambda>entry. is_fixed (snd entry)) rs"

text \<open>What one symbol becomes under a table of fixed rules.\<close>

definition substitute :: "rules \<Rightarrow> char \<Rightarrow> string" where
  "substitute rs symbol =
     (case map_of rs [symbol] of Some (Fixed replacement) \<Rightarrow> replacement | _ \<Rightarrow> [symbol])"

text \<open>The deterministic grammar \<open>A \<rightarrow> AB\<close> with axiom \<open>A\<close>.\<close>

definition algae :: lsystem where
  "algae = \<lparr>alphabet = ''AB'', rules = [(''A'', Fixed ''AB'')], axiom = ''A'', state = ''A''\<rparr>"


section \<open>Plants: length rule and turtle interpretation\<close>

text \<open>
  Floats are taken as real numbers and their sums and products as exact;
  the trigonometric functions of numpy are not, they are a parameter of
  the turtle pass (see \<open>angle_vector\<close> below).  \<open>int(x)\<close> cuts a float
  towards zero, and \<open>xs[i] = v\<close> raises when the position does not exist.
\<close>

definition py_int :: "real \<Rightarrow> int" where
  "py_int x = (if x < 0 then \<lceil>x\<rceil> else \<lfloor>x\<rfloor>)"

definition py_setitem :: "'a list \<Rightarrow> int \<Rightarrow> 'a \<Rightarrow> error + 'a list" where
  "py_setitem xs i v =
     (if wrap_index (length xs) i < 0 \<or> int (length xs) \<le> wrap_index (length xs) i
      then Inl IndexError
      else Inr (xs[nat (wrap_index (length xs) i) := v]))"

definition get_length_rule :: "real \<Rightarrow> error + rules" where
  "get_length_rule length' =
     (let weights = [0, 0, 0, 0];
          a = py_int length';
          b = a + 1
      in case py_setitem weights a (real_of_int b - length') of
           Inl e \<Rightarrow> Inl e
         | Inr weights \<Rightarrow>
             (case py_setitem weights b (length' - real_of_int a) of
                Inl e \<Rightarrow> Inl e
              | Inr weights \<Rightarrow> Inr [(''F'', Weighted [''F'', ''Ff'', ''FF'', ''FfF''] weights)]))"

text \<open>The weight a rule table gives to one candidate of the rule of a symbol.\<close>

definition weight_for :: "rules \<Rightarrow> string \<Rightarrow> string \<Rightarrow> real option" where
  "weight_for rs symbol candidate =
     (case map_of rs symbol of
        Some (Weighted population weights) \<Rightarrow> map_of (zip population weights) candidate
      | _ \<Rightarrow> None)"

type_synonym vec2 = "real \<times> real"

type_synonym color = "int \<times> int \<times> int"

text \<open>
  The two colour generators are closures over the random source.  A
  generator is given the scan position of the symbol it is called for and
  returns the colour drawn there.
\<close>

record draw_settings =
  angle :: real
  trunk_segment_length :: real
  trunk_width :: real
  trunk_color_generator :: "nat \<Rightarrow> color"
  leaf_radius :: real
  leaf_type :: int
  leaf_color_generator :: "nat \<Rightarrow> color"

text \<open>
  A render function is \<open>draw_trunk\<close> or \<open>draw_leaf\<close> with all arguments but
  the surface and the camera fixed: start, end, width, colour, and leaf
  type, centre, angle, radius, colour.
\<close>

datatype render_func =
    draw_trunk vec2 vec2 int color
  | draw_leaf int vec2 real real color

text \<open>
  \<open>angle_vector\<close> calls three functions of numpy, which work on doubles:
  \<open>np.radians\<close>, \<open>np.cos\<close> and \<open>np.sin\<close>.  They are library code; the
  model takes them as a parameter and proves what holds whatever they
  return.
\<close>

record numpy =
  np_radians :: "real \<Rightarrow> real"
  np_cos :: "real \<Rightarrow> real"
  np_sin :: "real \<Rightarrow> real"

definition angle_vector :: "numpy \<Rightarrow> real \<Rightarrow> vec2" where
  "angle_vector np a = (np_cos np (np_radians np a), - np_sin np (np_radians np a))"

text \<open>\<open>pos + angle_vector(angle) * k\<close>, component by component as numpy adds.\<close>

definition advance :: "numpy \<Rightarrow> vec2 \<Rightarrow> real \<Rightarrow> real \<Rightarrow> vec2" where
  "advance np p a k = (fst p + fst (angle_vector np a) * k, snd p + snd (angle_vector np a) * k)"

text \<open>The three functions over the real numbers, without rounding.\<close>

definition exact_numpy :: numpy where
  "exact_numpy = \<lparr>np_radians = (\<lambda>a. a * pi / 180), np_cos = cos, np_sin = sin\<rparr>"

text \<open>
  What the three functions return on IEEE doubles for the heading 90:
  \<open>np.radians(90.0)\<close> is the double \<open>884279719003555 / 2^49\<close>
  (1.5707963267948966), and at that double \<open>np.cos\<close> returns
  \<open>4967757600021511 / 2^106\<close> (6.123233995736766e-17) and \<open>np.sin\<close> returns
  1.0.  Elsewhere the entries are the exact functions; the table is only
  read at the heading 90.
\<close>

definition numpy_doubles :: numpy where
  "numpy_doubles =
     \<lparr>np_radians = (\<lambda>a. if a = 90 then 884279719003555 / 2 ^ 49 else a * pi / 180),
      np_cos = (\<lambda>x. if x = 884279719003555 / 2 ^ 49 then 4967757600021511 / 2 ^ 106 else cos x),
      np_sin = (\<lambda>x. if x = 884279719003555 / 2 ^ 49 then 1 else sin x)\<rparr>"

text \<open>
  The local variables of \<open>update_draw_settings\<close>: \<open>pos\<close>, \<open>angle\<close> (here
  \<open>heading\<close>), the LIFO \<open>queue\<close> with its top first, and the run counter
  \<open>f\<close> (here \<open>run\<close>).
\<close>

record cursor =
  pos :: vec2
  heading :: real
  queue :: "(vec2 \<times> real) list"
  run :: nat

definition is_forward :: "char \<Rightarrow> bool" where
  "is_forward c = (c = CHR ''F'' \<or> c = CHR ''f'')"

text \<open>
  The body of the loop, the \<open>match\<close> on \<open>self.state[i]\<close>: \<open>c\<close> is
  \<open>self.state[i]\<close> and \<open>ahead\<close> is \<open>self.state[i + 1]\<close>.  It returns the
  cursor and \<open>self.render_funcs\<close> after the pass.
\<close>

definition draw_step ::
  "numpy \<Rightarrow> draw_settings \<Rightarrow> nat \<Rightarrow> char \<Rightarrow> char \<Rightarrow> cursor \<Rightarrow> render_func list
     \<Rightarrow> error + (cursor \<times> render_func list)"
where
  "draw_step np ds i c ahead cur render_funcs =
     (if c = CHR ''F'' \<or> c = CHR ''f'' then
        (if \<not> (ahead = CHR ''F'' \<or> ahead = CHR ''f'') then
           (let new_pos = advance np (pos cur) (heading cur)
                            (real (run cur + 1) * trunk_segment_length ds)
            in Inr (cur\<lparr>pos := new_pos, run := 0\<rparr>,
                    draw_trunk (pos cur) new_pos (py_int (trunk_width ds)) (trunk_color_generator ds i)
                      # render_funcs))
         else Inr (cur\<lparr>run := run cur + 1\<rparr>, render_funcs))
      else if c = CHR ''X'' \<or> c = CHR ''x'' then
        Inr (cur, render_funcs @
               [draw_leaf (leaf_type ds) (pos cur) (heading cur) (leaf_radius ds)
                  (leaf_color_generator ds i)])
      else if c = CHR ''+'' then Inr (cur\<lparr>heading := heading cur + angle ds\<rparr>, render_funcs)
      else if c = CHR ''-'' then Inr (cur\<lparr>heading := heading cur - angle ds\<rparr>, render_funcs)
      else if c = CHR ''['' then
        Inr (cur\<lparr>queue := (pos cur, heading cur) # queue cur\<rparr>, render_funcs)
      else if c = CHR '']'' then
        (case queue cur of
           [] \<Rightarrow> Inl Blocked
         | saved # below \<Rightarrow>
             Inr (cur\<lparr>pos := fst saved, heading := snd saved, queue := below\<rparr>, render_funcs))
      else Inr (cur, render_funcs))"

text \<open>
  The loop \<open>for i in range(len(self.state) - 1)\<close> over the state with the
  blank appended: the string argument starts at \<open>self.state[i]\<close>, and its
  last item is looked at but never visited.
\<close>

fun draw_loop ::
  "numpy \<Rightarrow> draw_settings \<Rightarrow> nat \<Rightarrow> string \<Rightarrow> cursor \<Rightarrow> render_func list
     \<Rightarrow> error + (cursor \<times> render_func list)"
where
  "draw_loop np ds i (c # ahead # rest) cur render_funcs =
     (case draw_step np ds i c ahead cur render_funcs of
        Inl e \<Rightarrow> Inl e
      | Inr (cur', render_funcs') \<Rightarrow> draw_loop np ds (Suc i) (ahead # rest) cur' render_funcs')"
| "draw_loop np ds i st cur render_funcs = Inr (cur, render_funcs)"

definition start_cursor :: cursor where
  "start_cursor = \<lparr>pos = (0, 0), heading = 90, queue = [], run = 0\<rparr>"

text \<open>The render functions \<open>update_draw_settings\<close> leaves for a state string.\<close>

definition turtle_pass :: "numpy \<Rightarrow> draw_settings \<Rightarrow> string \<Rightarrow> error + (cursor \<times> render_func list)" where
  "turtle_pass np ds st = draw_loop np ds 0 (st @ '' '') start_cursor []"


text \<open>
  \<open>Plant.ASPEN_DRAW_SETTINGS\<close>, with the two generators returning the base
  colour they jitter around.
\<close>

definition aspen_draw_settings :: draw_settings where
  "aspen_draw_settings =
     \<lparr>angle = 15, trunk_segment_length = 3, trunk_width = 2,
      trunk_color_generator = (\<lambda>i. (195, 185, 175)),
      leaf_radius = 3, leaf_type = 0,
      leaf_color_generator = (\<lambda>i. (22, 180, 80))\<rparr>"


section \<open>Well-formed branch strings\<close>

text \<open>
  Bracket balance: scanning left to right, \<open>depth\<close> counts the brackets
  still open; a closing bracket needs an open one, and none may stay open.
\<close>

fun balanced_from :: "nat \<Rightarrow> string \<Rightarrow> bool" where
  "balanced_from depth [] = (depth = 0)"
| "balanced_from depth (c # cs) =
     (if c = CHR ''['' then balanced_from (Suc depth) cs
      else if c = CHR '']'' then (0 < depth \<and> balanced_from (depth - 1) cs)
      else balanced_from depth cs)"

definition balanced :: "string \<Rightarrow> bool" where
  "balanced s = balanced_from 0 s"

definition in_alphabet :: "string \<Rightarrow> bool" where
  "in_alphabet s = list_all (\<lambda>c. c \<in> set ''FfXx[]+-'') s"

definition is_bracket :: "char \<Rightarrow> bool" where
  "is_bracket c = (c = CHR ''['' \<or> c = CHR '']'')"


section \<open>The operator table of the specification\<close>

text \<open>
  The specification's reading of the weights: ten base weights and one
  precondition per operator.  The leaf count is what the code counts,
  \<open>branch.count('X')\<close>.
\<close>

definition leaf_count :: "string \<Rightarrow> nat" where
  "leaf_count branch = count_list branch CHR ''X''"

definition spec_base_weights :: "int list" where
  "spec_base_weights = [4, 4, 4, 4, 3, 3, 2, 3, 3, 2]"

definition spec_precondition :: "string \<Rightarrow> nat \<Rightarrow> bool" where
  "spec_precondition branch k =
     (if k = 0 \<or> k = 1 then CHR ''+'' \<in> set branch \<or> CHR ''-'' \<in> set branch
      else if k = 2 then CHR ''F'' \<in> set branch
      else if k = 3 \<or> k = 4 then CHR ''f'' \<in> set branch
      else if k = 5 then
        (CHR ''F'' \<in> set branch \<or> CHR ''f'' \<in> set branch \<or>
         CHR ''+'' \<in> set branch \<or> CHR ''-'' \<in> set branch) \<and> leaf_count branch \<le> 4
      else if k = 6 then CHR ''X'' \<in> set branch
      else if k = 7 then CHR ''x'' \<in> set branch \<and> leaf_count branch \<le> 4
      else if k = 8 then CHR ''['' \<in> set branch
      else True)"


text \<open>A branch and one set of draws (operator 8, remove a branch) to run the mutation on.\<close>

definition example_draws :: draws where
  "example_draws = \<lparr>mutation = 8, sample = [4, 0, 2, 3, 1, 5, 6], copies = 1, rot_sign = CHR ''+'',
     rot_count = 2, with_F = True, F_pos = 1, position = 0, forward = CHR ''f''\<rparr>"



section \<open>Plants and their mutation\<close>

record plant = lsystem +
  draw_settings :: draw_settings
  length_p :: real
  render_funcs :: "render_func list"

text \<open>
  \<open>update_draw_settings\<close> appends a blank to the state, runs the loop and
  cuts the blank off again.
\<close>

definition update_draw_settings :: "numpy \<Rightarrow> plant \<Rightarrow> draw_settings \<Rightarrow> error + plant" where
  "update_draw_settings np self ds =
     (case turtle_pass np ds (state self) of
        Inl e \<Rightarrow> Inl e
      | Inr (cur, rfs) \<Rightarrow>
          Inr (self\<lparr>render_funcs := rfs, state := slice_to (state self @ '' '') (- 1)\<rparr>))"

definition regrow :: "numpy \<Rightarrow> plant \<Rightarrow> (nat \<Rightarrow> nat \<Rightarrow> nat) \<Rightarrow> error + plant" where
  "regrow np self picks =
     (case step (reset self) picks 4 of
        Inl e \<Rightarrow> Inl e
      | Inr grown \<Rightarrow> update_draw_settings np grown (draw_settings grown))"

text \<open>
  Objects live in a heap, a list of plants; a reference is a position in
  it.  A call returns the heap it leaves and either the exception raised
  or the value returned.  \<open>Plant(...)\<close> allocates the next position, sets
  the fields and runs \<open>regrow\<close> on the new object; the dictionary union
  \<open>get_length_rule(length) | growth_rules\<close> lets the growth rules win.
\<close>

type_synonym heap = "plant list"

definition Plant ::
  "numpy \<Rightarrow> heap \<Rightarrow> rules \<Rightarrow> string \<Rightarrow> draw_settings \<Rightarrow> real \<Rightarrow> (nat \<Rightarrow> nat \<Rightarrow> nat) \<Rightarrow> heap \<times> (error + nat)"
where
  "Plant np h growth_rules axiom' ds length' picks =
     (case get_length_rule length' of
        Inl e \<Rightarrow> (h, Inl e)
      | Inr length_rule \<Rightarrow>
          (let self = length h;
               h1 = h @ [\<lparr>alphabet = ''FfXx[]+-'', rules = growth_rules @ length_rule,
                          axiom = axiom', state = axiom', draw_settings = ds,
                          length_p = length', render_funcs = []\<rparr>]
           in case regrow np (h1 ! self) picks of
                Inl e \<Rightarrow> (h1, Inl e)
              | Inr grown \<Rightarrow> (h1[self := grown], Inr self)))"

text \<open>
  \<open>random.uniform(a, b)\<close> is \<open>a + (b - a) * random()\<close>; \<open>u\<close> is the value
  \<open>random()\<close> draws, which lies in \<open>[0, 1)\<close>.
\<close>

definition uniform :: "real \<Rightarrow> real \<Rightarrow> real \<Rightarrow> real" where
  "uniform a b u = a + (b - a) * u"

definition random_ok :: "real \<Rightarrow> bool" where
  "random_ok u = (0 \<le> u \<and> u < 1)"

text \<open>
  The draws of one mutated branch: those of the first mutation, whether
  \<open>random.random() < 0.25\<close> asks for a second one, and those of the second.
\<close>

record branch_draws =
  first :: draws
  again :: bool
  second :: draws

text \<open>
  The draws of \<open>get_mutation\<close>: per branch (by its position in the rule),
  per probability, for the new length, and for the growth of the new plant.
\<close>

record mutation_draws =
  branch_draw :: "nat \<Rightarrow> branch_draws"
  probability_draw :: "nat \<Rightarrow> real"
  length_draw :: real
  growth :: "nat \<Rightarrow> nat \<Rightarrow> nat"

text \<open>Mutate the branch, and with a chance of 1/4 mutate the result again.\<close>

definition mutate_branch :: "string \<Rightarrow> branch_draws \<Rightarrow> error + string" where
  "mutate_branch old_branch bd =
     (case get_mutated_branch old_branch (first bd) of
        Inl e \<Rightarrow> Inl e
      | Inr new_branch \<Rightarrow>
          (if again bd then get_mutated_branch new_branch (second bd) else Inr new_branch))"

text \<open>The loop \<open>for old_branch in old_branches\<close>; \<open>j\<close> is the position of the branch.\<close>

fun mutate_branches ::
  "(nat \<Rightarrow> branch_draws) \<Rightarrow> nat \<Rightarrow> string list \<Rightarrow> string list \<Rightarrow> error + string list"
where
  "mutate_branches bds j [] new_branches = Inr new_branches"
| "mutate_branches bds j (old_branch # rest) new_branches =
     (case mutate_branch old_branch (bds j) of
        Inl e \<Rightarrow> Inl e
      | Inr new_branch \<Rightarrow> mutate_branches bds (Suc j) rest (new_branches @ [new_branch]))"

definition get_mutation :: "numpy \<Rightarrow> heap \<Rightarrow> nat \<Rightarrow> mutation_draws \<Rightarrow> heap \<times> (error + nat)" where
  "get_mutation np h self d =
     (case map_of (rules (h ! self)) ''X'' of
        None \<Rightarrow> (h, Inl KeyError)
      | Some (Fixed branch) \<Rightarrow>
          (case mutate_branch branch (branch_draw d 0) of
             Inl e \<Rightarrow> (h, Inl e)
           | Inr new_rule \<Rightarrow>
               (let new_length = uniform (max (1 / 2) (length_p (h ! self) - 35 / 100))
                                         (min (5 / 2) (length_p (h ! self) + 35 / 100)) (length_draw d)
                in Plant np h [(''X'', Fixed new_rule)] (axiom (h ! self)) (draw_settings (h ! self))
                     new_length (growth d)))
      | Some (Weighted old_branches probabilities) \<Rightarrow>
          (case mutate_branches (branch_draw d) 0 old_branches [] of
             Inl e \<Rightarrow> (h, Inl e)
           | Inr new_branches \<Rightarrow>
               (let new_probabilities =
                      map (\<lambda>(j, probability).
                             uniform (max (1 / 10) (probability - 15 / 100)) (probability + 15 / 100)
                               (probability_draw d j))
                          (enumerate 0 probabilities);
                    new_length = uniform (max (1 / 2) (length_p (h ! self) - 35 / 100))
                                         (min (5 / 2) (length_p (h ! self) + 35 / 100)) (length_draw d)
                in Plant np h [(''X'', Weighted new_branches new_probabilities)] (axiom (h ! self))
                     (draw_settings (h ! self)) new_length (growth d))))"

text \<open>
  A small plant to run the mutation on: the rule \<open>X \<rightarrow> F\<close>, the axiom \<open>X\<close>,
  length 1.5, grown with the candidate \<open>Ff\<close> drawn for every \<open>F\<close>.
\<close>

definition sprout :: plant where
  "sprout =
     \<lparr>alphabet = ''FfXx[]+-'',
      rules = [(''X'', Fixed ''F''), (''F'', Weighted [''F'', ''Ff'', ''FF'', ''FfF''] [0, 1 / 2, 1 / 2, 0])],
      axiom = ''X'', state = ''Ffff'',
      draw_settings = aspen_draw_settings, length_p = 3 / 2,
      render_funcs = [draw_trunk (0, 0) (0, - 12) 2 (195, 185, 175)]\<rparr>"

text \<open>
  Draws for it: operator 9 puts an \<open>f\<close> at position 0 of the branch, no
  second mutation, \<open>random()\<close> gives 1/2 for the length.
\<close>

definition sprout_draws :: mutation_draws where
  "sprout_draws =
     \<lparr>branch_draw = (\<lambda>j. \<lparr>first = example_draws\<lparr>mutation := 9, sample := [0]\<rparr>, again = False,
                            second = example_draws\<rparr>),
      probability_draw = (\<lambda>j. 1 / 2),
      length_draw = 1 / 2,
      growth = (\<lambda>pass i. 1)\<rparr>"


text \<open>The plant that mutation makes of it.\<close>

definition sprout_child :: plant where
  "sprout_child =
     \<lparr>alphabet = ''FfXx[]+-'',
      rules = [(''X'', Fixed ''fF''), (''F'', Weighted [''F'', ''Ff'', ''FF'', ''FfF''] [0, 1 / 2, 1 / 2, 0])],
      axiom = ''X'', state = ''fFfff'',
      draw_settings = aspen_draw_settings, length_p = 3 / 2,
      render_funcs = [draw_trunk (0, 0) (0, - 15) 2 (195, 185, 175)]\<rparr>"





section \<open>Bracket balance under edits\<close>

lemma balanced_from_append:
  "balanced_from k w \<Longrightarrow> balanced_from (d + k) (w @ ys) = balanced_from d ys"
proof (induction w arbitrary: k)
  case Nil
  then show ?case by simp
next
  case (Cons c w)
  show ?case
  proof (cases "c = CHR ''[''")
    case True
    with Cons.prems have "balanced_from (Suc k) w" by simp
    from Cons.IH [OF this] True show ?thesis by simp
  next
    case False
    show ?thesis
    proof (cases "c = CHR '']''")
      case True
      with Cons.prems False have k: "0 < k" and "balanced_from (k - 1) w" by simp_all
      from Cons.IH [OF this(2)] k True False show ?thesis
        by (simp add: Nat.add_diff_assoc)
    next
      case nb: False
      with Cons.prems False have "balanced_from k w" by simp
      from Cons.IH [OF this] False nb show ?thesis by simp
    qed
  qed
qed

lemma balanced_from_insert:
  "balanced_from 0 w \<Longrightarrow> balanced_from d (xs @ w @ ys) = balanced_from d (xs @ ys)"
proof (induction xs arbitrary: d)
  case Nil
  from balanced_from_append [OF Nil, of d ys] show ?case by simp
next
  case (Cons c xs)
  then show ?case by simp
qed

lemma balanced_from_plain: "\<forall>c \<in> set u. \<not> is_bracket c \<Longrightarrow> balanced_from k u = (k = 0)"
  by (induction u) (auto simp: is_bracket_def)

lemma balanced_from_skip:
  "\<forall>c \<in> set u. \<not> is_bracket c \<Longrightarrow> balanced_from k (u @ ys) = balanced_from k ys"
  by (induction u) (auto simp: is_bracket_def)

lemma balanced_from_pair:
  assumes "\<forall>c \<in> set u. \<not> is_bracket c"
  shows "balanced_from 0 (CHR ''['' # u @ '']'')"
  using assms by (simp add: balanced_from_skip)

lemma balanced_from_tail:
  "balanced_from d (xs @ ys) \<Longrightarrow> \<exists>k. balanced_from k ys"
  by (induction xs arbitrary: d) (auto split: if_splits)

lemma balanced_from_has_close:
  "balanced_from (Suc k) cs \<Longrightarrow> CHR '']'' \<in> set cs"
  by (induction cs arbitrary: k) (auto split: if_splits)

lemma chars_of_unfold:
  "chars_of branch =
     of_bool (CHR ''F'' \<in> set branch) + 2 * of_bool (CHR ''f'' \<in> set branch) +
     4 * of_bool (CHR ''X'' \<in> set branch) + 8 * of_bool (CHR ''x'' \<in> set branch) +
     16 * of_bool (CHR ''['' \<in> set branch) + 32 * of_bool (CHR '']'' \<in> set branch) +
     64 * of_bool (CHR ''+'' \<in> set branch) + 128 * of_bool (CHR ''-'' \<in> set branch)"
  by (simp add: chars_of_def enumerate_eq_zip upt_rec of_bool_def)

lemma chars_of_masks:
  "(chars_of branch AND 192 = 0) = (CHR ''+'' \<notin> set branch \<and> CHR ''-'' \<notin> set branch)"
  "(chars_of branch AND 1 = 0) = (CHR ''F'' \<notin> set branch)"
  "(chars_of branch AND 2 = 0) = (CHR ''f'' \<notin> set branch)"
  "(chars_of branch AND 195 = 0) =
     (CHR ''F'' \<notin> set branch \<and> CHR ''f'' \<notin> set branch \<and> CHR ''+'' \<notin> set branch \<and> CHR ''-'' \<notin> set branch)"
  "(chars_of branch AND 4 = 0) = (CHR ''X'' \<notin> set branch)"
  "(chars_of branch AND 8 = 0) = (CHR ''x'' \<notin> set branch)"
  "(chars_of branch AND 16 = 0) = (CHR ''['' \<notin> set branch)"
  unfolding chars_of_unfold
  by (cases "CHR ''F'' \<in> set branch"; cases "CHR ''f'' \<in> set branch";
      cases "CHR ''X'' \<in> set branch"; cases "CHR ''x'' \<in> set branch";
      cases "CHR ''['' \<in> set branch"; cases "CHR '']'' \<in> set branch";
      cases "CHR ''+'' \<in> set branch"; cases "CHR ''-'' \<in> set branch"; simp)+

lemma mutation_weights_unfold:
  "mutation_weights branch =
     [if CHR ''+'' \<in> set branch \<or> CHR ''-'' \<in> set branch then 4 else 0,
      if CHR ''+'' \<in> set branch \<or> CHR ''-'' \<in> set branch then 4 else 0,
      if CHR ''F'' \<in> set branch then 4 else 0,
      if CHR ''f'' \<in> set branch then 4 else 0,
      if CHR ''f'' \<in> set branch then 3 else 0,
      if (CHR ''F'' \<in> set branch \<or> CHR ''f'' \<in> set branch \<or> CHR ''+'' \<in> set branch \<or> CHR ''-'' \<in> set branch)
         \<and> count_list branch CHR ''X'' \<le> 4 then 3 else 0,
      if CHR ''X'' \<in> set branch then 2 else 0,
      if CHR ''x'' \<in> set branch \<and> count_list branch CHR ''X'' \<le> 4 then 3 else 0,
      if CHR ''['' \<in> set branch then 3 else 0,
      2]"
  unfolding mutation_weights_def Let_def chars_of_masks
  by (simp add: not_less)

lemma sample_ok_set: "sample_ok n perm \<Longrightarrow> set perm = {..<n}"
proof -
  assume a: "sample_ok n perm"
  then have sub: "set perm \<subseteq> {..<n}" by (auto simp: sample_ok_def list_all_iff)
  from a have "card (set perm) = n" by (simp add: sample_ok_def distinct_card)
  then have "card (set perm) = card {..<n}" by simp
  with sub show ?thesis by (simp add: card_subset_eq)
qed

lemma random_character_loop_found:
  "\<exists>i \<in> set perm. string ! i \<in> set characters \<Longrightarrow>
   \<exists>a \<in> set perm. random_character_loop string characters perm = int a \<and> string ! a \<in> set characters"
  by (induction perm) auto

lemma random_character_loop_none:
  "\<forall>i \<in> set perm. string ! i \<notin> set characters \<Longrightarrow>
   random_character_loop string characters perm = - 1"
  by (induction perm) auto

lemma get_random_character_index_found:
  assumes "sample_ok (length string) perm" "\<exists>c \<in> set string. c \<in> set characters"
  shows "\<exists>a < length string. get_random_character_index string characters perm = int a \<and>
           string ! a \<in> set characters"
proof -
  from assms(2) obtain i where "i < length string" "string ! i \<in> set characters"
    by (metis in_set_conv_nth)
  with sample_ok_set [OF assms(1)] have "\<exists>i \<in> set perm. string ! i \<in> set characters" by auto
  from random_character_loop_found [OF this] sample_ok_set [OF assms(1)]
  show ?thesis by (auto simp: get_random_character_index_def)
qed

lemma bracket_loop_scan:
  assumes "i \<le> j" "j < length s" "s ! j = CHR '']''"
    and "\<forall>k. i \<le> k \<and> k < j \<longrightarrow> s ! k \<noteq> CHR '']''"
    and "a \<le> i" "s ! a = CHR ''[''" "\<forall>k. a < k \<and> k < i \<longrightarrow> s ! k \<noteq> CHR ''[''"
  shows "\<exists>a'. bracket_loop s (int a) (int i) = Inr (int a', int j) \<and> a \<le> a' \<and> a' < j \<and>
           s ! a' = CHR ''['' \<and> (\<forall>k. a' < k \<and> k < j \<longrightarrow> s ! k \<noteq> CHR ''['')"
  using assms
proof (induction "j - i" arbitrary: i a)
  case 0
  then have ij: "i = j" by simp
  from 0 ij have "a \<noteq> j" by auto
  with 0 ij have "a < j" by simp
  with 0 ij show ?case
    by (subst bracket_loop.simps) (auto simp: Let_def wrap_index_def)
next
  case (Suc n)
  then have lt: "i < j" by simp
  with Suc.prems have ni: "s ! i \<noteq> CHR '']''" by simp
  from lt Suc.prems have il: "i < length s" by simp
  show ?case
  proof (cases "s ! i = CHR ''[''")
    case True
    have "\<exists>a'. bracket_loop s (int i) (int (Suc i)) = Inr (int a', int j) \<and> i \<le> a' \<and> a' < j \<and>
           s ! a' = CHR ''['' \<and> (\<forall>k. a' < k \<and> k < j \<longrightarrow> s ! k \<noteq> CHR ''['')"
      using Suc.hyps(2) lt Suc.prems True by (intro Suc.hyps(1)) auto
    then obtain a' where a': "bracket_loop s (int i) (int (Suc i)) = Inr (int a', int j)" "i \<le> a'" "a' < j"
        "s ! a' = CHR ''[''" "\<forall>k. a' < k \<and> k < j \<longrightarrow> s ! k \<noteq> CHR ''[''" by blast
    have "bracket_loop s (int a) (int i) = bracket_loop s (int i) (int (Suc i))"
      using il ni True by (subst bracket_loop.simps) (simp add: Let_def wrap_index_def add.commute)
    with a' Suc.prems(5) show ?thesis by (intro exI [of _ a']) auto
  next
    case False
    have "\<exists>a'. bracket_loop s (int a) (int (Suc i)) = Inr (int a', int j) \<and> a \<le> a' \<and> a' < j \<and>
           s ! a' = CHR ''['' \<and> (\<forall>k. a' < k \<and> k < j \<longrightarrow> s ! k \<noteq> CHR ''['')"
      using Suc.hyps(2) lt Suc.prems False
      by (intro Suc.hyps(1)) (auto simp: less_Suc_eq)
    moreover have "bracket_loop s (int a) (int i) = bracket_loop s (int a) (int (Suc i))"
      using il ni False by (subst bracket_loop.simps) (simp add: Let_def wrap_index_def add.commute)
    ultimately show ?thesis by simp
  qed
qed

lemma first_close_after:
  assumes "balanced_from d s" "a < length s" "s ! a = CHR ''[''"
  shows "\<exists>j. a < j \<and> j < length s \<and> s ! j = CHR '']'' \<and> (\<forall>k. a \<le> k \<and> k < j \<longrightarrow> s ! k \<noteq> CHR '']'')"
proof -
  have s: "s = take a s @ CHR ''['' # drop (Suc a) s"
    using assms(2,3) by (metis id_take_nth_drop)
  with assms(1) have "balanced_from d (take a s @ CHR ''['' # drop (Suc a) s)" by simp
  from balanced_from_tail [OF this] obtain k where "balanced_from k (CHR ''['' # drop (Suc a) s)" ..
  then have "CHR '']'' \<in> set (drop (Suc a) s)" by (simp add: balanced_from_has_close)
  then obtain m where m: "m < length (drop (Suc a) s)" "drop (Suc a) s ! m = CHR '']''"
    by (auto simp: in_set_conv_nth)
  define P where "P j = (a < j \<and> j < length s \<and> s ! j = CHR '']'')" for j
  from m have "P (Suc a + m)" by (auto simp: P_def)
  then have L: "P (LEAST j. P j)" by (rule LeastI)
  have M: "\<And>k. k < (LEAST j. P j) \<Longrightarrow> \<not> P k" by (rule not_less_Least)
  show ?thesis
  proof (intro exI [of _ "LEAST j. P j"] conjI allI impI)
    fix k assume k: "a \<le> k \<and> k < (LEAST j. P j)"
    show "s ! k \<noteq> CHR '']''"
    proof (cases "k = a")
      case True with assms(3) show ?thesis by simp
    next
      case False
      with k M [of k] L show ?thesis by (auto simp: P_def)
    qed
  qed (use L in \<open>auto simp: P_def\<close>)
qed


lemma splice_balanced:
  assumes "a \<le> b" "b \<le> length s" "balanced_from 0 (take (b - a) (drop a s))" "balanced_from 0 w"
  shows "balanced_from d (take a s @ w @ drop b s) = balanced_from d s"
proof -
  have "drop (b - a) (drop a s) = drop b s" using assms(1) by simp
  with append_take_drop_id [of "b - a" "drop a s"]
  have "take (b - a) (drop a s) @ drop b s = drop a s" by simp
  with append_take_drop_id [of a s]
  have "s = take a s @ take (b - a) (drop a s) @ drop b s" by simp
  then have "balanced_from d s = balanced_from d (take a s @ take (b - a) (drop a s) @ drop b s)"
    by simp
  also have "\<dots> = balanced_from d (take a s @ drop b s)"
    by (rule balanced_from_insert [OF assms(3)])
  also have "\<dots> = balanced_from d (take a s @ w @ drop b s)"
    by (rule balanced_from_insert [OF assms(4), symmetric])
  finally show ?thesis by simp
qed

lemma list_all_splice:
  "list_all P s \<Longrightarrow> list_all P w \<Longrightarrow> list_all P (take a s @ w @ drop b s)"
  unfolding list_all_iff by (auto dest: in_set_takeD in_set_dropD)

lemma splice_alphabet:
  "in_alphabet s \<Longrightarrow> in_alphabet w \<Longrightarrow> in_alphabet (take a s @ w @ drop b s)"
  unfolding in_alphabet_def by (rule list_all_splice)

lemma slice_nat [simp]:
  "slice_to s (int a) = take a s" "slice_from s (int a) = drop a s"
  "slice_from s (int a + 1) = drop (Suc a) s"
  by (simp_all add: slice_to_def slice_from_def wrap_index_def nat_add_distrib)

lemma bracket_span:
  assumes "balanced string" "CHR ''['' \<in> set string" "sample_ok (length string) perm"
  shows "\<exists>i j. get_bracket_indexes string perm = Inr (int i, int j) \<and> i < j \<and> j < length string \<and>
           string ! i = CHR ''['' \<and> string ! j = CHR '']'' \<and>
           (\<forall>k. i < k \<and> k < j \<longrightarrow> \<not> is_bracket (string ! k)) \<and>
           balanced (slice_to string (int i) @ slice_from string (int j + 1))"
proof -
  from get_random_character_index_found [OF assms(3), of "''[''"] assms(2)
  obtain a where a: "a < length string" "get_random_character_index string ''['' perm = int a"
      "string ! a = CHR ''[''" by auto
  from assms(1) have bal: "balanced_from 0 string" by (simp add: balanced_def)
  from first_close_after [OF bal a(1) a(3)]
  obtain j where j: "a < j" "j < length string" "string ! j = CHR '']''"
      "\<forall>k. a \<le> k \<and> k < j \<longrightarrow> string ! k \<noteq> CHR '']''" by blast
  have "\<exists>a'. bracket_loop string (int a) (int a) = Inr (int a', int j) \<and> a \<le> a' \<and> a' < j \<and>
          string ! a' = CHR ''['' \<and> (\<forall>k. a' < k \<and> k < j \<longrightarrow> string ! k \<noteq> CHR ''['')"
    using j a by (intro bracket_loop_scan) auto
  then obtain i where i: "bracket_loop string (int a) (int a) = Inr (int i, int j)" "a \<le> i" "i < j"
      "string ! i = CHR ''[''" "\<forall>k. i < k \<and> k < j \<longrightarrow> string ! k \<noteq> CHR ''[''" by blast
  have inner: "\<forall>k. i < k \<and> k < j \<longrightarrow> \<not> is_bracket (string ! k)"
    using i(2,5) j(4) by (auto simp: is_bracket_def)
  define u where "u = take (j - Suc i) (drop (Suc i) string)"
  have u: "\<forall>c \<in> set u. \<not> is_bracket c"
  proof
    fix c assume "c \<in> set u"
    then obtain m where m: "m < length u" "u ! m = c" by (auto simp: in_set_conv_nth)
    then have "m < j - Suc i" by (simp add: u_def)
    with m j(2) i(3) have "c = string ! (Suc i + m)" by (simp add: u_def)
    with inner \<open>m < j - Suc i\<close> show "\<not> is_bracket c" by simp
  qed
  have span: "take (Suc j - i) (drop i string) = CHR ''['' # u @ '']''"
  proof -
    have 1: "drop i string = CHR ''['' # drop (Suc i) string"
      using i(3,4) j(2) by (simp add: Cons_nth_drop_Suc [symmetric])
    have 2: "Suc j - i = Suc (Suc (j - Suc i))" using i(3) by simp
    have 3: "j - Suc i < length (drop (Suc i) string)" using i(3) j(2) by simp
    have 4: "drop (Suc i) string ! (j - Suc i) = CHR '']''" using i(3) j(2,3) by simp
    show ?thesis
      unfolding 1 2 u_def by (simp add: take_Suc_conv_app_nth [OF 3] 4)
  qed
  have "balanced_from 0 (take i string @ [] @ drop (Suc j) string) = balanced_from 0 string"
    using i(3) j(2) u by (intro splice_balanced) (simp_all add: span balanced_from_skip)
  with bal have "balanced (slice_to string (int i) @ slice_from string (int j + 1))"
    by (simp add: balanced_def)
  moreover have "get_bracket_indexes string perm = Inr (int i, int j)"
    using i(1) a(2) by (simp add: get_bracket_indexes_def)
  ultimately show ?thesis
    using i(3,4) j(2,3) inner by blast
qed

lemma set_get_characters_in_string:
  "set (get_characters_in_string character_set string) = set character_set \<inter> set string"
  by (auto simp: get_characters_in_string_def)

lemma pick_character:
  assumes "sample_ok (length string) perm" "set character_set \<inter> set string \<noteq> {}"
  shows "\<exists>a < length string.
           get_random_character_index string (get_characters_in_string character_set string) perm = int a \<and>
           string ! a \<in> set character_set"
proof -
  from assms(2) have "\<exists>c \<in> set string. c \<in> set (get_characters_in_string character_set string)"
    by (auto simp: set_get_characters_in_string)
  from get_random_character_index_found [OF assms(1) this]
  show ?thesis by (auto simp: set_get_characters_in_string)
qed

lemma insert_wellformed:
  assumes "balanced s" "in_alphabet s" "a \<le> length s" "balanced_from 0 w" "in_alphabet w"
  shows "balanced (take a s @ w @ drop a s) \<and> in_alphabet (take a s @ w @ drop a s)"
proof -
  have "balanced_from 0 (take a s @ w @ drop a s) = balanced_from 0 s"
    using assms(3,4) by (intro splice_balanced) simp_all
  with assms(1) splice_alphabet [OF assms(2,5)] show ?thesis by (simp add: balanced_def)
qed

lemma replace_wellformed:
  assumes "balanced s" "in_alphabet s" "a < length s" "\<not> is_bracket (s ! a)"
    "balanced_from 0 w" "in_alphabet w"
  shows "balanced (take a s @ w @ drop (Suc a) s) \<and> in_alphabet (take a s @ w @ drop (Suc a) s)"
proof -
  have "take (Suc a - a) (drop a s) = [s ! a]"
    using assms(3) by (simp add: take_Suc_conv_app_nth)
  then have "balanced_from 0 (take (Suc a - a) (drop a s))"
    using assms(4) by (simp add: is_bracket_def)
  then have "balanced_from 0 (take a s @ w @ drop (Suc a) s) = balanced_from 0 s"
    using assms(3,5) by (intro splice_balanced) simp_all
  with assms(1) splice_alphabet [OF assms(2,6)] show ?thesis by (simp add: balanced_def)
qed

lemma mutation_weights_length: "length (mutation_weights branch) = 10"
  by (simp add: mutation_weights_unfold)

lemma mutation_weights_sum: "0 < sum_list (mutation_weights branch)"
proof -
  have "\<forall>w \<in> set (butlast (mutation_weights branch)). 0 \<le> w"
    by (simp add: mutation_weights_unfold)
  then have "0 \<le> sum_list (butlast (mutation_weights branch))"
    by (simp add: sum_list_nonneg)
  moreover have "mutation_weights branch = butlast (mutation_weights branch) @ [2]"
    by (simp add: mutation_weights_unfold)
  then have "sum_list (mutation_weights branch) = sum_list (butlast (mutation_weights branch)) + 2"
    by (metis sum_list.append sum_list.Cons sum_list.Nil add_0_right)
  ultimately show ?thesis by simp
qed

lemma choices_mutation:
  assumes "draws_ok branch d"
  shows "choices [0 ..< length (mutation_weights branch)] (mutation_weights branch) (mutation d)
           = Inr (mutation d)"
    and "mutation d < 10" and "0 < mutation_weights branch ! mutation d"
proof -
  from assms show lt: "mutation d < 10" and "0 < mutation_weights branch ! mutation d"
    by (simp_all add: draws_ok_def choices_ok_def mutation_weights_length)
  from lt mutation_weights_sum [of branch]
  show "choices [0 ..< length (mutation_weights branch)] (mutation_weights branch) (mutation d)
           = Inr (mutation d)"
    by (simp add: choices_def mutation_weights_length)
qed

lemma get_random_branch_wellformed:
  assumes "draws_ok branch d"
  shows "\<exists>sub. get_random_branch d = Inr sub \<and> balanced_from 0 sub \<and> in_alphabet sub"
proof -
  from assms have sign: "rot_sign d = CHR ''+'' \<or> rot_sign d = CHR ''-''"
    and n: "1 \<le> rot_count d" "rot_count d \<le> 4"
    and p: "1 \<le> F_pos d" "F_pos d \<le> rot_count d"
    by (simp_all add: draws_ok_def randint_ok_def)
  define rotation where "rotation = replicate (nat (rot_count d)) (rot_sign d)"
  have rot: "get_random_rotation 4 (rot_sign d) (rot_count d) = Inr rotation"
    using n by (simp add: get_random_rotation_def randint_def rotation_def)
  have plain: "\<forall>c \<in> set rotation. \<not> is_bracket c" and alpha: "in_alphabet rotation"
    using sign by (auto simp: rotation_def is_bracket_def in_alphabet_def list_all_iff)
  show ?thesis
  proof (cases "with_F d")
    case False
    with rot have "get_random_branch d = Inr (''['' @ rotation @ ''X]'')"
      by (simp add: get_random_branch_def)
    moreover have "balanced_from 0 (''['' @ rotation @ ''X]'')"
      using plain by (simp add: balanced_from_skip)
    moreover have "in_alphabet (''['' @ rotation @ ''X]'')"
      using alpha by (simp add: in_alphabet_def)
    ultimately show ?thesis by blast
  next
    case True
    define i where "i = nat (F_pos d)"
    have i: "F_pos d = int i" using p by (simp add: i_def)
    have len: "int (length rotation) = rot_count d" using n by (simp add: rotation_def)
    define r' where "r' = take i rotation @ ''F'' @ drop i rotation"
    from True rot p len have "get_random_branch d = Inr (''['' @ r' @ ''X]'')"
      by (simp add: get_random_branch_def randint_def i r'_def)
    moreover have pl: "\<forall>c \<in> set r'. \<not> is_bracket c"
      using plain by (auto simp: r'_def is_bracket_def dest: in_set_takeD in_set_dropD)
    have "balanced_from 0 (''['' @ r' @ ''X]'')"
      using pl by (simp add: balanced_from_skip)
    moreover have "in_alphabet r'"
      unfolding r'_def using alpha by (intro splice_alphabet) (simp_all add: in_alphabet_def)
    then have "in_alphabet (''['' @ r' @ ''X]'')"
      by (simp add: in_alphabet_def)
    ultimately show ?thesis by blast
  qed
qed

text \<open>
  C2: the weights \<open>get_mutated_branch\<close> selects with are the base weights
  \<open>[4,4,4,4,3,3,2,3,3,2]\<close>, with the weight of an operator set to 0 exactly
  when its precondition fails: operators 0 and 1 need a \<open>+\<close> or \<open>-\<close>, 2 an
  \<open>F\<close>, 3 and 4 an \<open>f\<close>, 5 one of \<open>F f + -\<close>, 6 an \<open>X\<close>, 7 an \<open>x\<close>,
  8 an opening bracket, 9 nothing; 5 and 7 also need at most four \<open>X\<close>.
\<close>

theorem mutation_weights_gated:
  "mutation_weights branch =
     map (\<lambda>k. if spec_precondition branch k then spec_base_weights ! k else 0) [0 ..< 10]"
  by (simp add: mutation_weights_unfold spec_precondition_def spec_base_weights_def leaf_count_def upt_rec)

theorem mutation_weights_gated_witness:
  "mutation_weights ''F[+x]XXXXX'' = [4, 4, 4, 0, 0, 0, 2, 0, 3, 2]"
  using mutation_weights_gated [of "''F[+x]XXXXX''"]
  by (simp add: spec_precondition_def spec_base_weights_def leaf_count_def upt_rec)


text \<open>
  C6: on a bracket-balanced string that contains an opening bracket,
  \<open>get_bracket_indexes\<close> returns (it never reads past the end), and the
  pair \<open>(i, j)\<close> it returns has \<open>i < j\<close>, an opening bracket at \<open>i\<close>, a
  closing one at \<open>j\<close> and no bracket strictly between them; the string
  without the span \<open>i .. j\<close> is balanced again.
\<close>

theorem get_bracket_indexes_innermost:
  assumes "balanced string" "CHR ''['' \<in> set string" "sample_ok (length string) perm"
  shows "\<exists>i j. get_bracket_indexes string perm = Inr (int i, int j) \<and> i < j \<and> j < length string \<and>
           string ! i = CHR ''['' \<and> string ! j = CHR '']'' \<and>
           (\<forall>k. i < k \<and> k < j \<longrightarrow> \<not> is_bracket (string ! k)) \<and>
           balanced (slice_to string (int i) @ slice_from string (int j + 1))"
  using assms by (rule bracket_span)

theorem get_bracket_indexes_innermost_witness:
  "balanced ''F[+[X]-]f'' \<and> CHR ''['' \<in> set ''F[+[X]-]f'' \<and>
   sample_ok (length ''F[+[X]-]f'') [1, 0, 2, 3, 4, 5, 6, 7, 8] \<and>
   get_bracket_indexes ''F[+[X]-]f'' [1, 0, 2, 3, 4, 5, 6, 7, 8] = Inr (3, 5) \<and>
   balanced (slice_to ''F[+[X]-]f'' 3 @ slice_from ''F[+[X]-]f'' (5 + 1))"
proof -
  have h1: "balanced ''F[+[X]-]f''" by (simp add: balanced_def)
  have h2: "CHR ''['' \<in> set ''F[+[X]-]f''" by simp
  have h3: "sample_ok (length ''F[+[X]-]f'') [1, 0, 2, 3, 4, 5, 6, 7, 8]" by (simp add: sample_ok_def)
  have v: "get_bracket_indexes ''F[+[X]-]f'' [1, 0, 2, 3, 4, 5, 6, 7, 8] = Inr (3, 5)"
    by (simp add: get_bracket_indexes_def get_random_character_index_def wrap_index_def)
  from get_bracket_indexes_innermost [OF h1 h2 h3] v
  have "balanced (slice_to ''F[+[X]-]f'' 3 @ slice_from ''F[+[X]-]f'' (5 + 1))"
    by (auto simp: slice_to_def slice_from_def wrap_index_def)
  with h1 h2 h3 v show ?thesis by blast
qed


text \<open>
  C1: for a bracket-balanced branch over the alphabet \<open>FfXx[]+-\<close> and any
  draws the random source can deliver (so any of the ten operators whose
  weight is positive, any sample order, any inserted sub-branch), the
  mutated branch is bracket-balanced and over the alphabet again.  The
  call returns such a branch for every non-empty input; on the empty
  branch only operator 9 is enabled and \<open>random.randint(0, -1)\<close> raises.
\<close>

theorem get_mutated_branch_wellformed:
  assumes "balanced branch" "in_alphabet branch" "draws_ok branch d"
  shows "(\<exists>out. get_mutated_branch branch d = Inr out \<and> balanced out \<and> in_alphabet out) \<or>
         (branch = [] \<and> get_mutated_branch branch d = Inl ValueError)"
proof -
  note ch = choices_mutation [OF assms(3)]
  from assms(3) have smp: "sample_ok (length branch) (sample d)" by (simp add: draws_ok_def)
  define m where "m = mutation d"
  note w = ch(3) [folded m_def, unfolded mutation_weights_unfold]
  from ch(2) have "m = 0 \<or> m = 1 \<or> m = 2 \<or> m = 3 \<or> m = 4 \<or> m = 5 \<or> m = 6 \<or> m = 7 \<or> m = 8 \<or> m = 9"
    unfolding m_def by arith
  then consider (rot) "m = 0 \<or> m = 1" | (f) "m = 2" | (uf) "m = 3 \<or> m = 4" | (add) "m = 5"
    | (x) "m = 6" | (ux) "m = 7" | (rm) "m = 8" | (fwd) "m = 9" by blast
  then show ?thesis
  proof cases
    case rot
    with w have "set ''+-'' \<inter> set branch \<noteq> {}" by (auto split: if_splits)
    from pick_character [OF smp this] obtain a where a: "a < length branch"
      "get_random_character_index branch (get_characters_in_string ''+-'' branch) (sample d) = int a"
      "branch ! a \<in> set ''+-''" by blast
    then have pl: "\<not> is_bracket (branch ! a)" by (auto simp: is_bracket_def)
    from rot show ?thesis
    proof
      assume m0: "m = 0"
      from assms(3) have k: "1 \<le> copies d" "copies d \<le> 2" by (simp_all add: draws_ok_def randint_ok_def)
      define w' where "w' = replicate (nat (copies d)) (branch ! a)"
      have "get_mutated_branch branch d = Inr (take a branch @ w' @ drop a branch)"
        using ch(1) m0 a(1,2) k
        by (simp add: get_mutated_branch_def m_def py_index_def wrap_index_def randint_def w'_def)
      moreover have "balanced_from 0 w'" using pl by (simp add: w'_def balanced_from_plain)
      moreover have "in_alphabet w'" using a(3) by (auto simp: w'_def in_alphabet_def list_all_iff)
      ultimately show ?thesis using insert_wellformed [OF assms(1,2), of a w'] a(1) by simp
    next
      assume m1: "m = 1"
      have "get_mutated_branch branch d = Inr (take a branch @ [] @ drop (Suc a) branch)"
        using ch(1) m1 a(1,2) by (simp add: get_mutated_branch_def m_def)
      then show ?thesis
        using replace_wellformed [OF assms(1,2) a(1) pl, of "[]"] by (simp add: in_alphabet_def)
    qed
  next
    case f
    with w have "\<exists>c \<in> set branch. c \<in> set ''F''" by (auto split: if_splits)
    from get_random_character_index_found [OF smp this] obtain a where a: "a < length branch"
      "get_random_character_index branch ''F'' (sample d) = int a" "branch ! a \<in> set ''F''" by blast
    then have pl: "\<not> is_bracket (branch ! a)" by (auto simp: is_bracket_def)
    have "get_mutated_branch branch d = Inr (take a branch @ ''f'' @ drop (Suc a) branch)"
      using ch(1) f a(1,2) by (simp add: get_mutated_branch_def m_def replace_def)
    then show ?thesis
      using replace_wellformed [OF assms(1,2) a(1) pl, of "''f''"] by (simp add: in_alphabet_def)
  next
    case uf
    with w have "\<exists>c \<in> set branch. c \<in> set ''f''" by (auto split: if_splits)
    from get_random_character_index_found [OF smp this] obtain a where a: "a < length branch"
      "get_random_character_index branch ''f'' (sample d) = int a" "branch ! a \<in> set ''f''" by blast
    then have pl: "\<not> is_bracket (branch ! a)" by (auto simp: is_bracket_def)
    from uf show ?thesis
    proof
      assume m3: "m = 3"
      have "get_mutated_branch branch d = Inr (take a branch @ ''F'' @ drop (Suc a) branch)"
        using ch(1) m3 a(1,2) by (simp add: get_mutated_branch_def m_def replace_def)
      then show ?thesis
        using replace_wellformed [OF assms(1,2) a(1) pl, of "''F''"] by (simp add: in_alphabet_def)
    next
      assume m4: "m = 4"
      have "get_mutated_branch branch d = Inr (take a branch @ [] @ drop (Suc a) branch)"
        using ch(1) m4 a(1,2) by (simp add: get_mutated_branch_def m_def)
      then show ?thesis
        using replace_wellformed [OF assms(1,2) a(1) pl, of "[]"] by (simp add: in_alphabet_def)
    qed
  next
    case add
    with w have "set ''Ff+-'' \<inter> set branch \<noteq> {}" by (auto split: if_splits)
    from pick_character [OF smp this] obtain a where a: "a < length branch"
      "get_random_character_index branch (get_characters_in_string ''Ff+-'' branch) (sample d) = int a"
      by blast
    from get_random_branch_wellformed [OF assms(3)] obtain sub where
      sub: "get_random_branch d = Inr sub" "balanced_from 0 sub" "in_alphabet sub" by blast
    have "get_mutated_branch branch d = Inr (take a branch @ sub @ drop a branch)"
      using ch(1) add a sub(1) by (simp add: get_mutated_branch_def m_def)
    then show ?thesis
      using insert_wellformed [OF assms(1,2) _ sub(2,3), of a] a(1) by simp
  next
    case x
    with w have "\<exists>c \<in> set branch. c \<in> set ''X''" by (auto split: if_splits)
    from get_random_character_index_found [OF smp this] obtain a where a: "a < length branch"
      "get_random_character_index branch ''X'' (sample d) = int a" "branch ! a \<in> set ''X''" by blast
    then have pl: "\<not> is_bracket (branch ! a)" by (auto simp: is_bracket_def)
    have "get_mutated_branch branch d = Inr (take a branch @ ''x'' @ drop (Suc a) branch)"
      using ch(1) x a(1,2) by (simp add: get_mutated_branch_def m_def replace_def)
    then show ?thesis
      using replace_wellformed [OF assms(1,2) a(1) pl, of "''x''"] by (simp add: in_alphabet_def)
  next
    case ux
    with w have "\<exists>c \<in> set branch. c \<in> set ''x''" by (auto split: if_splits)
    from get_random_character_index_found [OF smp this] obtain a where a: "a < length branch"
      "get_random_character_index branch ''x'' (sample d) = int a" "branch ! a \<in> set ''x''" by blast
    then have pl: "\<not> is_bracket (branch ! a)" by (auto simp: is_bracket_def)
    have "get_mutated_branch branch d = Inr (take a branch @ ''X'' @ drop (Suc a) branch)"
      using ch(1) ux a(1,2) by (simp add: get_mutated_branch_def m_def replace_def)
    then show ?thesis
      using replace_wellformed [OF assms(1,2) a(1) pl, of "''X''"] by (simp add: in_alphabet_def)
  next
    case rm
    with w have "CHR ''['' \<in> set branch" by (auto split: if_splits)
    from bracket_span [OF assms(1) this smp] obtain i j where
      ij: "get_bracket_indexes branch (sample d) = Inr (int i, int j)" "i < j" "j < length branch"
        "balanced (slice_to branch (int i) @ slice_from branch (int j + 1))" by blast
    have "get_mutated_branch branch d = Inr (take i branch @ [] @ drop (Suc j) branch)"
      using ch(1) rm ij(1) by (simp add: get_mutated_branch_def m_def)
    moreover have "in_alphabet (take i branch @ [] @ drop (Suc j) branch)"
      using assms(2) by (intro splice_alphabet) (simp_all add: in_alphabet_def)
    ultimately show ?thesis using ij(4) by simp
  next
    case fwd
    show ?thesis
    proof (cases "branch = []")
      case True
      then have "get_mutated_branch branch d = Inl ValueError"
        using ch(1) fwd by (simp add: get_mutated_branch_def m_def get_random_index_def randint_def)
      with True show ?thesis by simp
    next
      case False
      with assms(3) have p: "0 \<le> position d" "position d \<le> int (length branch) - 1"
        and c: "forward d = CHR ''F'' \<or> forward d = CHR ''f''"
        by (simp_all add: draws_ok_def randint_ok_def)
      define a where "a = nat (position d)"
      have a: "position d = int a" "a \<le> length branch" using p by (simp_all add: a_def)
      have "get_mutated_branch branch d = Inr (take a branch @ [forward d] @ drop a branch)"
        using ch(1) fwd p a(1) False
        by (simp add: get_mutated_branch_def m_def get_random_index_def randint_def)
      moreover have "balanced_from 0 [forward d]" "in_alphabet [forward d]"
        using c by (auto simp: in_alphabet_def)
      ultimately show ?thesis using insert_wellformed [OF assms(1,2) a(2), of "[forward d]"] by simp
    qed
  qed
qed

theorem get_mutated_branch_witness:
  "balanced ''F[+X]fx'' \<and> in_alphabet ''F[+X]fx'' \<and> draws_ok ''F[+X]fx'' example_draws  \<and>
   get_mutated_branch ''F[+X]fx'' example_draws = Inr ''Ffx'' \<and> balanced ''Ffx'' \<and> in_alphabet ''Ffx''"
proof -
  have h1: "balanced ''F[+X]fx''" by (simp add: balanced_def)
  have h2: "in_alphabet ''F[+X]fx''" by (simp add: in_alphabet_def)
  have w: "mutation_weights ''F[+X]fx'' = [4, 4, 4, 4, 3, 3, 2, 3, 3, 2]"
    by (simp add: mutation_weights_unfold)
  have h3: "draws_ok ''F[+X]fx'' example_draws"
    by (simp add: draws_ok_def example_draws_def w choices_ok_def sample_ok_def randint_ok_def)
  have v: "get_mutated_branch ''F[+X]fx'' example_draws = Inr ''Ffx''"
    by (simp add: get_mutated_branch_def w example_draws_def choices_def get_bracket_indexes_def
          get_random_character_index_def slice_to_def slice_from_def wrap_index_def)
  from get_mutated_branch_wellformed [OF h1 h2 h3] v
  have "balanced ''Ffx'' \<and> in_alphabet ''Ffx''" by simp
  with h1 h2 h3 v show ?thesis by blast
qed

section \<open>Rewriting with fixed rules\<close>

lemma all_fixed_lookup:
  "all_fixed rs \<Longrightarrow> map_of rs key = Some symbol_rule \<Longrightarrow> \<exists>replacement. symbol_rule = Fixed replacement"
proof -
  assume a: "all_fixed rs" and m: "map_of rs key = Some symbol_rule"
  from m have "(key, symbol_rule) \<in> set rs" by (rule map_of_SomeD)
  with a have "is_fixed symbol_rule" by (auto simp: all_fixed_def list_all_iff)
  then show ?thesis by (cases symbol_rule) simp_all
qed

lemma rewrite_fixed:
  "all_fixed rs \<Longrightarrow> rewrite rs pick i st next_state = Inr (next_state @ concat (map (substitute rs) st))"
proof (induction st arbitrary: i next_state)
  case Nil
  then show ?case by simp
next
  case (Cons symbol rest)
  show ?case
  proof (cases "map_of rs [symbol]")
    case None
    with Cons show ?thesis by (simp add: substitute_def)
  next
    case (Some symbol_rule)
    with all_fixed_lookup [OF Cons.prems] obtain replacement where "symbol_rule = Fixed replacement"
      by blast
    with Some Cons show ?thesis by (simp add: substitute_def)
  qed
qed

lemma step_loop_fixed:
  "all_fixed rs \<Longrightarrow>
   step_loop rs picks pass n st = Inr (((\<lambda>s. concat (map (substitute rs) s)) ^^ n) st)"
proof (induction n arbitrary: pass st)
  case 0
  then show ?case by simp
next
  case (Suc n)
  then show ?case by (simp add: rewrite_fixed funpow_Suc_right del: funpow.simps)
qed

text \<open>
  C3: with a rule table of fixed strings, one call of \<open>step\<close> replaces the
  state by the concatenation, in order, of what each symbol of the old
  state becomes: the replacement string of its rule, or the symbol itself
  when the table has no rule for it.  With the rule \<open>A \<rightarrow> AB\<close> the state
  \<open>A\<close> becomes \<open>AB\<close>.
\<close>

theorem step_once_fixed:
  assumes "all_fixed (rules l)"
  shows "step l picks 1 = Inr (l\<lparr>state := concat (map (substitute (rules l)) (state l))\<rparr>)"
  using step_loop_fixed [OF assms, of picks 0 1 "state l"] by (simp add: step_def)

theorem step_once_fixed_witness:
  "all_fixed (rules algae) \<and> step algae (\<lambda>pass i. 0) 1 = Inr (algae\<lparr>state := ''AB''\<rparr>)"
proof -
  have h: "all_fixed (rules algae)" by (simp add: algae_def all_fixed_def)
  from step_once_fixed [OF h, of "\<lambda>pass i. 0"] h show ?thesis
    by (simp add: algae_def substitute_def)
qed

text \<open>
  C9: \<open>step(0)\<close> leaves every L-system as it is, and with a rule table of
  fixed strings \<open>step(a)\<close> returns and \<open>step(b)\<close> after it gives what
  \<open>step(a + b)\<close> gives, for all natural numbers \<open>a\<close> and \<open>b\<close> and whatever
  the random source would draw.
\<close>

theorem step_zero_and_additive:
  "step l picks 0 = Inr l \<and>
   (all_fixed (rules l) \<longrightarrow>
      (\<exists>l'. step l picks1 (int a) = Inr l' \<and> step l' picks2 (int b) = step l picks3 (int a + int b)))"
proof (intro conjI impI)
  show "step l picks 0 = Inr l" by (simp add: step_def)
next
  assume fixed: "all_fixed (rules l)"
  define g where "g = (\<lambda>s. concat (map (substitute (rules l)) s))"
  have 1: "step l picks1 (int a) = Inr (l\<lparr>state := (g ^^ a) (state l)\<rparr>)"
    using step_loop_fixed [OF fixed] by (simp add: step_def g_def)
  have 2: "step (l\<lparr>state := (g ^^ a) (state l)\<rparr>) picks2 (int b)
             = Inr (l\<lparr>state := (g ^^ b) ((g ^^ a) (state l))\<rparr>)"
    using step_loop_fixed [OF fixed] by (simp add: step_def g_def)
  have 3: "step l picks3 (int a + int b) = Inr (l\<lparr>state := (g ^^ (a + b)) (state l)\<rparr>)"
    using step_loop_fixed [OF fixed] by (simp add: step_def g_def nat_add_distrib)
  have "(g ^^ (a + b)) (state l) = (g ^^ b) ((g ^^ a) (state l))"
    by (simp add: add.commute [of a b] funpow_add)
  with 1 2 3 show "\<exists>l'. step l picks1 (int a) = Inr l' \<and> step l' picks2 (int b) = step l picks3 (int a + int b)"
    by simp
qed

theorem step_zero_and_additive_witness:
  "step algae (\<lambda>pass i. 0) 0 = Inr algae \<and> all_fixed (rules algae) \<and>
   step algae (\<lambda>pass i. 0) 1 = Inr (algae\<lparr>state := ''AB''\<rparr>) \<and>
   step (algae\<lparr>state := ''AB''\<rparr>) (\<lambda>pass i. 0) 2 = Inr (algae\<lparr>state := ''ABBB''\<rparr>) \<and>
   step algae (\<lambda>pass i. 0) 3 = Inr (algae\<lparr>state := ''ABBB''\<rparr>)"
proof -
  have h: "all_fixed (rules algae)" by (simp add: algae_def all_fixed_def)
  have 1: "step algae (\<lambda>pass i. 0) 1 = Inr (algae\<lparr>state := ''AB''\<rparr>)"
    by (simp add: step_def algae_def numeral_eq_Suc)
  have 3: "step algae (\<lambda>pass i. 0) 3 = Inr (algae\<lparr>state := ''ABBB''\<rparr>)"
    by (simp add: step_def algae_def numeral_eq_Suc)
  from step_zero_and_additive [of algae "\<lambda>pass i. 0" "\<lambda>pass i. 0" 1 "\<lambda>pass i. 0" 2 "\<lambda>pass i. 0"] h 1 3
  show ?thesis by simp
qed


section \<open>The length rule\<close>

lemma get_length_rule_three_halves:
  "get_length_rule (3 / 2) = Inr [(''F'', Weighted [''F'', ''Ff'', ''FF'', ''FfF''] [0, 1 / 2, 1 / 2, 0])]"
proof -
  have "\<lfloor>3 / 2 :: real\<rfloor> = 1" by linarith
  then have a: "py_int (3 / 2) = 1" by (simp add: py_int_def)
  show ?thesis
    by (simp add: get_length_rule_def a py_setitem_def wrap_index_def numeral_eq_Suc)
qed

text \<open>
  C8, as the code has it: \<open>get_length_rule(1.5)\<close> returns the rule for \<open>F\<close>
  over the candidates \<open>F, Ff, FF, FfF\<close> with weight 0.5 for \<open>Ff\<close> (position
  1) and 0.5 for \<open>FF\<close> (position 2), and weight 0 for \<open>F\<close> and \<open>FfF\<close>.
\<close>

theorem get_length_rule_splits:
  "\<exists>rs. get_length_rule (3 / 2) = Inr rs \<and>
          rs = [(''F'', Weighted [''F'', ''Ff'', ''FF'', ''FfF''] [0, 1 / 2, 1 / 2, 0])] \<and>
          weight_for rs ''F'' ''Ff'' = Some (1 / 2) \<and> weight_for rs ''F'' ''FF'' = Some (1 / 2) \<and>
          weight_for rs ''F'' ''F'' = Some 0 \<and> weight_for rs ''F'' ''FfF'' = Some 0"
  by (simp add: get_length_rule_three_halves weight_for_def)

text \<open>
  The weights of C8 as stated, 0.5 for \<open>F\<close> and \<open>Ff\<close> and 0 for \<open>FF\<close> and
  \<open>FfF\<close>, are not the weights returned.
\<close>

theorem get_length_rule_counterexample:
  "\<not> (\<exists>rs. get_length_rule (3 / 2) = Inr rs \<and>
          weight_for rs ''F'' ''F'' = Some (1 / 2) \<and> weight_for rs ''F'' ''Ff'' = Some (1 / 2) \<and>
          weight_for rs ''F'' ''FF'' = Some 0 \<and> weight_for rs ''F'' ''FfF'' = Some 0)"
  by (simp add: get_length_rule_three_halves weight_for_def)


section \<open>The turtle pass\<close>

lemma draw_loop_Cons:
  "ys \<noteq> [] \<Longrightarrow>
   draw_loop np ds i (c # ys) cur rf =
     (case draw_step np ds i c (hd ys) cur rf of
        Inl e \<Rightarrow> Inl e
      | Inr (cur', rf') \<Rightarrow> draw_loop np ds (Suc i) ys cur' rf')"
  by (cases ys) (simp_all split: sum.splits prod.splits)

lemma draw_loop_single [simp]: "draw_loop np ds i [x] cur rf = Inr (cur, rf)"
  by simp

lemma draw_loop_append:
  "ys \<noteq> [] \<Longrightarrow>
   draw_loop np ds i (u @ ys) cur rf =
     (case draw_loop np ds i (u @ [hd ys]) cur rf of
        Inl e \<Rightarrow> Inl e
      | Inr (cur', rf') \<Rightarrow> draw_loop np ds (i + length u) ys cur' rf')"
proof (induction u arbitrary: i cur rf)
  case Nil
  then show ?case by simp
next
  case (Cons c u)
  have hd1: "hd (u @ ys) = hd (u @ [hd ys])" using Cons.prems by (cases u) simp_all
  have ne: "u @ ys \<noteq> []" "u @ [hd ys] \<noteq> []" using Cons.prems by simp_all
  show ?case
    using Cons.IH [OF Cons.prems]
    by (simp add: draw_loop_Cons [OF ne(1)] draw_loop_Cons [OF ne(2)] hd1
          split: sum.splits prod.splits)
qed

lemma py_int_two: "py_int 2 = 2"
  by (simp add: py_int_def)


lemma forward_accumulate:
  "list_all is_forward fs \<Longrightarrow> is_forward a \<Longrightarrow>
   draw_loop np ds i (fs @ [a]) cur rf = Inr (cur\<lparr>run := run cur + length fs\<rparr>, rf)"
proof (induction fs arbitrary: i cur)
  case Nil
  then show ?case by simp
next
  case (Cons c fs)
  then have "is_forward (hd (fs @ [a]))" by (cases fs) simp_all
  with Cons show ?case
    by (simp add: draw_loop_Cons draw_step_def is_forward_def)
qed

lemma forward_emit:
  assumes "fs \<noteq> []" "list_all is_forward fs" "\<not> is_forward a"
  shows "draw_loop np ds i (fs @ [a]) cur rf =
           Inr (cur\<lparr>pos := advance np (pos cur) (heading cur)
                              (real (run cur + length fs) * trunk_segment_length ds),
                     run := 0\<rparr>,
                draw_trunk (pos cur)
                  (advance np (pos cur) (heading cur) (real (run cur + length fs) * trunk_segment_length ds))
                  (py_int (trunk_width ds)) (trunk_color_generator ds (i + length fs - 1)) # rf)"
proof -
  from assms(1) obtain b x where fs: "fs = b @ [x]" by (cases fs rule: rev_cases) auto
  from assms(2) fs have x: "is_forward x" and b: "list_all is_forward b" by simp_all
  have "draw_loop np ds i (fs @ [a]) cur rf = draw_loop np ds i (b @ [x, a]) cur rf"
    by (simp add: fs)
  also have "\<dots> = draw_loop np ds (i + length b) [x, a] (cur\<lparr>run := run cur + length b\<rparr>) rf"
    by (subst draw_loop_append) (simp_all add: forward_accumulate [OF b x])
  also have "\<dots> = Inr (cur\<lparr>pos := advance np (pos cur) (heading cur)
                              (real (run cur + length fs) * trunk_segment_length ds),
                     run := 0\<rparr>,
                draw_trunk (pos cur)
                  (advance np (pos cur) (heading cur) (real (run cur + length fs) * trunk_segment_length ds))
                  (py_int (trunk_width ds)) (trunk_color_generator ds (i + length fs - 1)) # rf)"
    using x assms(3) by (simp add: draw_step_def is_forward_def fs Let_def)
  finally show ?thesis .
qed

lemma draw_step_run:
  "draw_step np ds i c a cur rf = Inr (cur', rf') \<Longrightarrow>
   run cur' = (if is_forward c then (if is_forward a then run cur + 1 else 0) else run cur)"
  by (auto simp: draw_step_def is_forward_def Let_def split: if_splits list.splits)

lemma run_after_prefix:
  "run cur = 0 \<Longrightarrow> draw_loop np ds i (u @ [a]) cur rf = Inr (cur', rf') \<Longrightarrow>
   run cur' = (if is_forward a then length (takeWhile is_forward (rev u)) else 0)"
proof (induction u arbitrary: a cur' rf' rule: rev_induct)
  case Nil
  then show ?case by simp
next
  case (snoc c u)
  from snoc.prems(2) have "draw_loop np ds i (u @ [c, a]) cur rf = Inr (cur', rf')" by simp
  then obtain cur1 rf1 where 1: "draw_loop np ds i (u @ [c]) cur rf = Inr (cur1, rf1)"
    and 2: "draw_loop np ds (i + length u) [c, a] cur1 rf1 = Inr (cur', rf')"
    by (subst (asm) draw_loop_append) (auto split: sum.splits)
  from snoc.IH [OF snoc.prems(1) 1]
  have r1: "run cur1 = (if is_forward c then length (takeWhile is_forward (rev u)) else 0)" .
  from 2 obtain "draw_step np ds (i + length u) c a cur1 rf1 = Inr (cur', rf')"
    by (auto split: sum.splits)
  from draw_step_run [OF this] r1 show ?case by simp
qed

lemma run_zero_at_run_start:
  assumes "draw_loop np ds i (u @ [a]) start_cursor rf = Inr (cur', rf')" "u = [] \<or> \<not> is_forward (last u)"
  shows "run cur' = 0"
proof -
  have s: "run start_cursor = 0" by (simp add: start_cursor_def)
  from assms(2) have "takeWhile is_forward (rev u) = []"
    by (cases u rule: rev_cases) simp_all
  with run_after_prefix [OF s assms(1)] show ?thesis by simp
qed

lemma advance_exact:
  assumes "np_cos np (np_radians np 90) = 0" "np_sin np (np_radians np 90) = 1"
  shows "advance np p 90 k = (fst p, snd p - k)"
  using assms by (simp add: advance_def angle_vector_def)

lemma exact_numpy_up:
  "np_cos exact_numpy (np_radians exact_numpy 90) = 0"
  "np_sin exact_numpy (np_radians exact_numpy 90) = 1"
proof -
  have "(90 :: real) * pi / 180 = pi / 2" by simp
  then show "np_cos exact_numpy (np_radians exact_numpy 90) = 0"
    and "np_sin exact_numpy (np_radians exact_numpy 90) = 1"
    by (simp_all add: exact_numpy_def)
qed

lemma exact_numpy_left:
  "np_cos exact_numpy (np_radians exact_numpy 180) = - 1"
  "np_sin exact_numpy (np_radians exact_numpy 180) = 0"
  by (simp_all add: exact_numpy_def)

lemma advance_up: "advance exact_numpy p 90 k = (fst p, snd p - k)"
  by (rule advance_exact) (rule exact_numpy_up)+

text \<open>
  C4, as the code has it: in a scan from the start, a maximal run of \<open>k\<close>
  forward symbols (after a prefix that does not end in a forward symbol,
  before a symbol that is not one) adds exactly one trunk command, at the
  front of the render functions.  It starts at the position \<open>(x, y)\<close>
  before the run and ends at
  \<open>(x + np.cos(np.radians(heading)) * (k * L), y - np.sin(np.radians(heading)) * (k * L))\<close>;
  nothing else of the cursor changes.  While the symbol ahead is a forward
  symbol the run is only counted and nothing is emitted.  The string \<open>F\<close>
  gives exactly one trunk command, from \<open>(0, 0)\<close> to
  \<open>(np.cos(np.radians(90)) * L, - np.sin(np.radians(90)) * L)\<close>, which is
  \<open>(0, -L)\<close> where the cosine is 0 and the sine is 1.
\<close>

theorem forward_run_single_trunk:
  "(draw_loop np ds 0 (u @ [hd fs]) start_cursor [] = Inr (cur, rf) \<and>
    (u = [] \<or> \<not> is_forward (last u)) \<and> fs \<noteq> [] \<and> list_all is_forward fs \<and> \<not> is_forward ahead
    \<longrightarrow>
    draw_loop np ds 0 (u @ fs @ [ahead]) start_cursor [] =
      Inr (cur\<lparr>pos := (fst (pos cur) + np_cos np (np_radians np (heading cur))
                                          * (real (length fs) * trunk_segment_length ds),
                       snd (pos cur) - np_sin np (np_radians np (heading cur))
                                          * (real (length fs) * trunk_segment_length ds)),
               run := 0\<rparr>,
           draw_trunk (pos cur)
             (fst (pos cur) + np_cos np (np_radians np (heading cur))
                                * (real (length fs) * trunk_segment_length ds),
              snd (pos cur) - np_sin np (np_radians np (heading cur))
                                * (real (length fs) * trunk_segment_length ds))
             (py_int (trunk_width ds)) (trunk_color_generator ds (length u + length fs - 1)) # rf)) \<and>
   (list_all is_forward fs \<and> is_forward ahead \<longrightarrow>
    draw_loop np ds i (fs @ [ahead]) cur0 rf0 = Inr (cur0\<lparr>run := run cur0 + length fs\<rparr>, rf0)) \<and>
   turtle_pass np ds ''F'' =
     Inr (start_cursor\<lparr>pos := (np_cos np (np_radians np 90) * trunk_segment_length ds,
                              - (np_sin np (np_radians np 90) * trunk_segment_length ds))\<rparr>,
          [draw_trunk (0, 0)
             (np_cos np (np_radians np 90) * trunk_segment_length ds,
              - (np_sin np (np_radians np 90) * trunk_segment_length ds))
             (py_int (trunk_width ds)) (trunk_color_generator ds 0)]) \<and>
   (np_cos np (np_radians np 90) = 0 \<and> np_sin np (np_radians np 90) = 1 \<longrightarrow>
    turtle_pass np ds ''F'' =
      Inr (start_cursor\<lparr>pos := (0, - trunk_segment_length ds)\<rparr>,
           [draw_trunk (0, 0) (0, - trunk_segment_length ds) (py_int (trunk_width ds))
              (trunk_color_generator ds 0)]))"
proof (intro conjI impI)
  assume a: "draw_loop np ds 0 (u @ [hd fs]) start_cursor [] = Inr (cur, rf) \<and>
    (u = [] \<or> \<not> is_forward (last u)) \<and> fs \<noteq> [] \<and> list_all is_forward fs \<and> \<not> is_forward ahead"
  then have p: "draw_loop np ds 0 (u @ [hd fs]) start_cursor [] = Inr (cur, rf)"
    and m: "u = [] \<or> \<not> is_forward (last u)" and fs: "fs \<noteq> []" "list_all is_forward fs"
    and ah: "\<not> is_forward ahead" by simp_all
  from run_zero_at_run_start [OF p m] have r: "run cur = 0" .
  have "draw_loop np ds 0 (u @ fs @ [ahead]) start_cursor [] = draw_loop np ds (length u) (fs @ [ahead]) cur rf"
    using fs(1) p by (subst draw_loop_append) simp_all
  with forward_emit [OF fs ah, where np = np and ds = ds and i = "length u" and cur = cur and rf = rf] r
  show "draw_loop np ds 0 (u @ fs @ [ahead]) start_cursor [] =
      Inr (cur\<lparr>pos := (fst (pos cur) + np_cos np (np_radians np (heading cur))
                                          * (real (length fs) * trunk_segment_length ds),
                       snd (pos cur) - np_sin np (np_radians np (heading cur))
                                          * (real (length fs) * trunk_segment_length ds)),
               run := 0\<rparr>,
           draw_trunk (pos cur)
             (fst (pos cur) + np_cos np (np_radians np (heading cur))
                                * (real (length fs) * trunk_segment_length ds),
              snd (pos cur) - np_sin np (np_radians np (heading cur))
                                * (real (length fs) * trunk_segment_length ds))
             (py_int (trunk_width ds)) (trunk_color_generator ds (length u + length fs - 1)) # rf)"
    by (simp add: advance_def angle_vector_def)
next
  assume "list_all is_forward fs \<and> is_forward ahead"
  then show "draw_loop np ds i (fs @ [ahead]) cur0 rf0 = Inr (cur0\<lparr>run := run cur0 + length fs\<rparr>, rf0)"
    by (simp add: forward_accumulate)
next
  show "turtle_pass np ds ''F'' =
     Inr (start_cursor\<lparr>pos := (np_cos np (np_radians np 90) * trunk_segment_length ds,
                              - (np_sin np (np_radians np 90) * trunk_segment_length ds))\<rparr>,
          [draw_trunk (0, 0)
             (np_cos np (np_radians np 90) * trunk_segment_length ds,
              - (np_sin np (np_radians np 90) * trunk_segment_length ds))
             (py_int (trunk_width ds)) (trunk_color_generator ds 0)])"
    by (simp add: turtle_pass_def draw_step_def start_cursor_def advance_def angle_vector_def Let_def)
next
  assume "np_cos np (np_radians np 90) = 0 \<and> np_sin np (np_radians np 90) = 1"
  then show "turtle_pass np ds ''F'' =
      Inr (start_cursor\<lparr>pos := (0, - trunk_segment_length ds)\<rparr>,
           [draw_trunk (0, 0) (0, - trunk_segment_length ds) (py_int (trunk_width ds))
              (trunk_color_generator ds 0)])"
    by (simp add: turtle_pass_def draw_step_def start_cursor_def advance_exact Let_def)
qed

theorem forward_run_single_trunk_witness:
  "draw_loop exact_numpy aspen_draw_settings 0 (''++++++'' @ [hd ''Ff'']) start_cursor []
     = Inr (start_cursor\<lparr>heading := 180\<rparr>, []) \<and>
   \<not> is_forward (last ''++++++'') \<and> ''Ff'' \<noteq> [] \<and> list_all is_forward ''Ff'' \<and>
   \<not> is_forward CHR ''X'' \<and>
   draw_loop exact_numpy aspen_draw_settings 0 (''++++++'' @ ''Ff'' @ [CHR ''X'']) start_cursor []
     = Inr (start_cursor\<lparr>pos := (- 6, 0), heading := 180\<rparr>,
            [draw_trunk (0, 0) (- 6, 0) 2 (195, 185, 175)]) \<and>
   list_all is_forward ''F'' \<and> is_forward CHR ''f'' \<and>
   draw_loop exact_numpy aspen_draw_settings 0 (''F'' @ [CHR ''f'']) start_cursor []
     = Inr (start_cursor\<lparr>run := 1\<rparr>, []) \<and>
   np_cos exact_numpy (np_radians exact_numpy 90) = 0 \<and>
   np_sin exact_numpy (np_radians exact_numpy 90) = 1 \<and>
   turtle_pass exact_numpy aspen_draw_settings ''F''
     = Inr (start_cursor\<lparr>pos := (0, - 3)\<rparr>, [draw_trunk (0, 0) (0, - 3) 2 (195, 185, 175)])"
proof -
  have p: "draw_loop exact_numpy aspen_draw_settings 0 (''++++++'' @ [hd ''Ff'']) start_cursor []
     = Inr (start_cursor\<lparr>heading := 180\<rparr>, [])"
    by (simp add: draw_step_def start_cursor_def aspen_draw_settings_def)
  have h: "\<not> is_forward (last ''++++++'')" "''Ff'' \<noteq> []" "list_all is_forward ''Ff''"
    "\<not> is_forward CHR ''X''" "list_all is_forward ''F''" "is_forward CHR ''f''"
    by (simp_all add: is_forward_def)
  from forward_run_single_trunk [where np = exact_numpy and ds = aspen_draw_settings
      and u = "''++++++''" and fs = "''Ff''"
      and cur = "start_cursor\<lparr>heading := 180\<rparr>" and rf = "[]" and ahead = "CHR ''X''"]
    forward_run_single_trunk [where np = exact_numpy and ds = aspen_draw_settings
      and fs = "''F''" and ahead = "CHR ''f''"
      and i = 0 and ?cur0.0 = start_cursor and ?rf0.0 = "[]"] p h exact_numpy_up
  show ?thesis
    by (simp add: aspen_draw_settings_def start_cursor_def exact_numpy_left py_int_two)
qed

text \<open>
  The end point of C4 as stated, \<open>(0, -L)\<close> for the string \<open>F\<close>, is not what
  the doubles give: the cosine of \<open>np.radians(90.0)\<close> is not 0, and the
  trunk ends to the right of the vertical by about \<open>6 * 10^-17 * L\<close>.
\<close>

theorem forward_run_single_trunk_counterexample:
  "(\<exists>x. turtle_pass numpy_doubles aspen_draw_settings ''F''
          = Inr (start_cursor\<lparr>pos := (x, - 3)\<rparr>, [draw_trunk (0, 0) (x, - 3) 2 (195, 185, 175)]) \<and>
        0 < x \<and> x < 1 / 10 ^ 15) \<and>
   turtle_pass numpy_doubles aspen_draw_settings ''F''
     \<noteq> Inr (start_cursor\<lparr>pos := (0, - 3)\<rparr>, [draw_trunk (0, 0) (0, - 3) 2 (195, 185, 175)])"
proof -
  define x :: real where "x = 4967757600021511 / 2 ^ 106 * 3"
  have v: "turtle_pass numpy_doubles aspen_draw_settings ''F''
          = Inr (start_cursor\<lparr>pos := (x, - 3)\<rparr>, [draw_trunk (0, 0) (x, - 3) 2 (195, 185, 175)])"
    by (simp add: turtle_pass_def draw_step_def start_cursor_def aspen_draw_settings_def
          advance_def angle_vector_def numpy_doubles_def py_int_two Let_def x_def)
  have b: "0 < x" "x < 1 / 10 ^ 15" by (simp_all add: x_def)
  then have "x \<noteq> 0" by simp
  with v have "turtle_pass numpy_doubles aspen_draw_settings ''F''
     \<noteq> Inr (start_cursor\<lparr>pos := (0, - 3)\<rparr>, [draw_trunk (0, 0) (0, - 3) 2 (195, 185, 175)])"
    by (simp add: start_cursor_def)
  with v b show ?thesis by blast
qed

lemma draw_step_open:
  "draw_step np ds i CHR ''['' a cur rf = Inr (cur\<lparr>queue := (pos cur, heading cur) # queue cur\<rparr>, rf)"
  by (simp add: draw_step_def)

lemma draw_step_close:
  "queue cur = saved # below \<Longrightarrow>
   draw_step np ds i CHR '']'' a cur rf =
     Inr (cur\<lparr>pos := fst saved, heading := snd saved, queue := below\<rparr>, rf)"
  by (simp add: draw_step_def)

lemma draw_step_plain:
  "\<not> is_bracket c \<Longrightarrow>
   \<exists>cur' rf'. draw_step np ds i c a cur rf = Inr (cur', rf') \<and> queue cur' = queue cur"
  by (simp add: draw_step_def is_bracket_def Let_def)

lemma balanced_scan:
  "balanced_from k w \<Longrightarrow> k \<le> length (queue cur) \<Longrightarrow>
   \<exists>cur' rf'. draw_loop np ds i (w @ [x]) cur rf = Inr (cur', rf') \<and> queue cur' = drop k (queue cur)"
proof (induction w arbitrary: k cur rf i)
  case Nil
  then show ?case by simp
next
  case (Cons c w)
  have ne: "w @ [x] \<noteq> []" by simp
  show ?case
  proof (cases "c = CHR ''[''")
    case True
    with Cons.prems have "balanced_from (Suc k) w" by simp
    from Cons.IH [OF this, where cur = "cur\<lparr>queue := (pos cur, heading cur) # queue cur\<rparr>"
        and i = "Suc i" and rf = rf]
      Cons.prems(2) True
    show ?thesis by (simp add: draw_loop_Cons [OF ne] draw_step_open)
  next
    case no: False
    show ?thesis
    proof (cases "c = CHR '']''")
      case True
      with Cons.prems no have k: "0 < k" and b: "balanced_from (k - 1) w" by simp_all
      with Cons.prems(2) obtain saved below where q: "queue cur = saved # below"
        by (cases "queue cur") auto
      from Cons.IH [OF b, where cur = "cur\<lparr>pos := fst saved, heading := snd saved, queue := below\<rparr>"
        and i = "Suc i" and rf = rf]
        Cons.prems(2) q k True
      show ?thesis
        by (simp add: draw_loop_Cons [OF ne] draw_step_close [OF q] drop_Cons')
    next
      case False
      with no have pl: "\<not> is_bracket c" by (simp add: is_bracket_def)
      from draw_step_plain [OF pl, where np = np and ds = ds and i = i and a = "hd (w @ [x])"
          and cur = cur and rf = rf] obtain cur1 rf1 where
        1: "draw_step np ds i c (hd (w @ [x])) cur rf = Inr (cur1, rf1)" "queue cur1 = queue cur"
        by blast
      from Cons.prems no False have "balanced_from k w" by simp
      from Cons.IH [OF this, where cur = cur1 and i = "Suc i" and rf = rf1] Cons.prems(2) 1
      show ?thesis by (simp add: draw_loop_Cons [OF ne])
    qed
  qed
qed

lemma bracket_pair:
  assumes "balanced w"
  shows "\<exists>cur' rf'. draw_loop np ds i (CHR ''['' # w @ [CHR '']'', x]) cur rf = Inr (cur', rf') \<and>
           pos cur' = pos cur \<and> heading cur' = heading cur \<and> queue cur' = queue cur"
proof -
  define cur1 where "cur1 = cur\<lparr>queue := (pos cur, heading cur) # queue cur\<rparr>"
  from assms have "balanced_from 0 w" by (simp add: balanced_def)
  from balanced_scan [OF this, where cur = cur1 and np = np and ds = ds and i = "Suc i"
      and x = "CHR '']''" and rf = rf]
  obtain cur2 rf2 where
    2: "draw_loop np ds (Suc i) (w @ [CHR '']'']) cur1 rf = Inr (cur2, rf2)" "queue cur2 = queue cur1"
    by auto
  have q: "queue cur2 = (pos cur, heading cur) # queue cur" using 2(2) by (simp add: cur1_def)
  have "draw_loop np ds i (CHR ''['' # w @ [CHR '']'', x]) cur rf
          = draw_loop np ds (Suc i) (w @ [CHR '']'', x]) cur1 rf"
    by (simp add: draw_loop_Cons draw_step_open cur1_def)
  also have "\<dots> = draw_loop np ds (Suc i + length w) [CHR '']'', x] cur2 rf2"
    by (subst draw_loop_append) (simp_all add: 2(1))
  also have "\<dots> = Inr (cur2\<lparr>pos := pos cur, heading := heading cur, queue := queue cur\<rparr>, rf2)"
    by (simp add: draw_step_close [OF q])
  finally show ?thesis by simp
qed

text \<open>
  C5: a closing bracket restores position and heading (and the rest of the
  stack) to what the cursor was when its matching opening bracket was
  read, the brackets in between being balanced; a balanced state is
  scanned to the end without ever finding the stack empty.  On
  \<open>F[+F]F\<close> the trunk after the closing bracket starts where the first
  trunk ends, the position before the opening bracket, not at the tip of
  the branch; where the cosine of 90 degrees is 0 and the sine 1 that
  position is \<open>(0, -L)\<close>.
\<close>

theorem bracket_restores_cursor:
  "(balanced w \<and> draw_loop np ds i (u @ ''['') cur0 rf0 = Inr (cur, rf) \<longrightarrow>
      (\<exists>cur' rf'. draw_loop np ds i (u @ ''['' @ w @ '']'' @ [x]) cur0 rf0 = Inr (cur', rf') \<and>
         pos cur' = pos cur \<and> heading cur' = heading cur \<and> queue cur' = queue cur)) \<and>
   (balanced st \<longrightarrow> (\<exists>cur' rf'. turtle_pass np ds st = Inr (cur', rf') \<and> queue cur' = [])) \<and>
   turtle_pass np ds ''F[+F]F'' =
     Inr (start_cursor\<lparr>pos := advance np (advance np (0, 0) 90 (trunk_segment_length ds)) 90
                                (trunk_segment_length ds)\<rparr>,
          [draw_trunk (advance np (0, 0) 90 (trunk_segment_length ds))
             (advance np (advance np (0, 0) 90 (trunk_segment_length ds)) 90 (trunk_segment_length ds))
             (py_int (trunk_width ds)) (trunk_color_generator ds 5),
           draw_trunk (advance np (0, 0) 90 (trunk_segment_length ds))
             (advance np (advance np (0, 0) 90 (trunk_segment_length ds)) (90 + angle ds)
                (trunk_segment_length ds))
             (py_int (trunk_width ds)) (trunk_color_generator ds 3),
           draw_trunk (0, 0) (advance np (0, 0) 90 (trunk_segment_length ds))
             (py_int (trunk_width ds)) (trunk_color_generator ds 0)]) \<and>
   (np_cos np (np_radians np 90) = 0 \<and> np_sin np (np_radians np 90) = 1 \<longrightarrow>
    turtle_pass np ds ''F[+F]F'' =
     Inr (start_cursor\<lparr>pos := (0, - (2 * trunk_segment_length ds))\<rparr>,
          [draw_trunk (0, - trunk_segment_length ds) (0, - (2 * trunk_segment_length ds))
             (py_int (trunk_width ds)) (trunk_color_generator ds 5),
           draw_trunk (0, - trunk_segment_length ds)
             (advance np (0, - trunk_segment_length ds) (90 + angle ds) (trunk_segment_length ds))
             (py_int (trunk_width ds)) (trunk_color_generator ds 3),
           draw_trunk (0, 0) (0, - trunk_segment_length ds)
             (py_int (trunk_width ds)) (trunk_color_generator ds 0)]))"
proof (intro conjI impI)
  assume a: "balanced w \<and> draw_loop np ds i (u @ ''['') cur0 rf0 = Inr (cur, rf)"
  then have "draw_loop np ds i (u @ ''['' @ w @ '']'' @ [x]) cur0 rf0
          = draw_loop np ds (i + length u) (CHR ''['' # w @ [CHR '']'', x]) cur rf"
    by (subst draw_loop_append) simp_all
  with bracket_pair [where w = w and np = np and ds = ds and i = "i + length u" and x = x
      and cur = cur and rf = rf] a
  show "\<exists>cur' rf'. draw_loop np ds i (u @ ''['' @ w @ '']'' @ [x]) cur0 rf0 = Inr (cur', rf') \<and>
         pos cur' = pos cur \<and> heading cur' = heading cur \<and> queue cur' = queue cur"
    by simp
next
  assume "balanced st"
  then have "balanced_from 0 st" by (simp add: balanced_def)
  from balanced_scan [OF this, where cur = start_cursor and np = np and ds = ds and i = 0
      and x = "CHR '' ''" and rf = "[]"]
  show "\<exists>cur' rf'. turtle_pass np ds st = Inr (cur', rf') \<and> queue cur' = []"
    by (simp add: turtle_pass_def start_cursor_def)
next
  show "turtle_pass np ds ''F[+F]F'' =
     Inr (start_cursor\<lparr>pos := advance np (advance np (0, 0) 90 (trunk_segment_length ds)) 90
                                (trunk_segment_length ds)\<rparr>,
          [draw_trunk (advance np (0, 0) 90 (trunk_segment_length ds))
             (advance np (advance np (0, 0) 90 (trunk_segment_length ds)) 90 (trunk_segment_length ds))
             (py_int (trunk_width ds)) (trunk_color_generator ds 5),
           draw_trunk (advance np (0, 0) 90 (trunk_segment_length ds))
             (advance np (advance np (0, 0) 90 (trunk_segment_length ds)) (90 + angle ds)
                (trunk_segment_length ds))
             (py_int (trunk_width ds)) (trunk_color_generator ds 3),
           draw_trunk (0, 0) (advance np (0, 0) 90 (trunk_segment_length ds))
             (py_int (trunk_width ds)) (trunk_color_generator ds 0)])"
    by (simp add: turtle_pass_def draw_step_def start_cursor_def Let_def numeral_eq_Suc)
next
  assume "np_cos np (np_radians np 90) = 0 \<and> np_sin np (np_radians np 90) = 1"
  then have up: "advance np p 90 k = (fst p, snd p - k)" for p k
    by (simp add: advance_exact)
  show "turtle_pass np ds ''F[+F]F'' =
     Inr (start_cursor\<lparr>pos := (0, - (2 * trunk_segment_length ds))\<rparr>,
          [draw_trunk (0, - trunk_segment_length ds) (0, - (2 * trunk_segment_length ds))
             (py_int (trunk_width ds)) (trunk_color_generator ds 5),
           draw_trunk (0, - trunk_segment_length ds)
             (advance np (0, - trunk_segment_length ds) (90 + angle ds) (trunk_segment_length ds))
             (py_int (trunk_width ds)) (trunk_color_generator ds 3),
           draw_trunk (0, 0) (0, - trunk_segment_length ds)
             (py_int (trunk_width ds)) (trunk_color_generator ds 0)])"
    by (simp add: turtle_pass_def draw_step_def start_cursor_def up Let_def numeral_eq_Suc)
qed

theorem bracket_restores_cursor_witness:
  "balanced ''+F'' \<and>
   draw_loop exact_numpy aspen_draw_settings 0 (''F'' @ ''['') start_cursor []
     = Inr (start_cursor\<lparr>pos := (0, - 3)\<rparr>, [draw_trunk (0, 0) (0, - 3) 2 (195, 185, 175)]) \<and>
   (\<exists>cur' rf'. draw_loop exact_numpy aspen_draw_settings 0 (''F'' @ ''['' @ ''+F'' @ '']'' @ [CHR ''F''])
                  start_cursor []
        = Inr (cur', rf') \<and> pos cur' = (0, - 3) \<and> heading cur' = 90 \<and> queue cur' = []) \<and>
   balanced ''F[+F]F'' \<and>
   (\<exists>cur' rf'. turtle_pass exact_numpy aspen_draw_settings ''F[+F]F'' = Inr (cur', rf') \<and> queue cur' = []) \<and>
   np_cos exact_numpy (np_radians exact_numpy 90) = 0 \<and>
   np_sin exact_numpy (np_radians exact_numpy 90) = 1 \<and>
   turtle_pass exact_numpy aspen_draw_settings ''F[+F]F'' =
     Inr (start_cursor\<lparr>pos := (0, - 6)\<rparr>,
          [draw_trunk (0, - 3) (0, - 6) 2 (195, 185, 175),
           draw_trunk (0, - 3) (advance exact_numpy (0, - 3) 105 3) 2 (195, 185, 175),
           draw_trunk (0, 0) (0, - 3) 2 (195, 185, 175)])"
proof -
  have b: "balanced ''+F''" "balanced ''F[+F]F''" by (simp_all add: balanced_def)
  have p: "draw_loop exact_numpy aspen_draw_settings 0 (''F'' @ ''['') start_cursor []
     = Inr (start_cursor\<lparr>pos := (0, - 3)\<rparr>, [draw_trunk (0, 0) (0, - 3) 2 (195, 185, 175)])"
    by (simp add: draw_step_def start_cursor_def aspen_draw_settings_def advance_up py_int_two Let_def)
  note t = bracket_restores_cursor [where w = "''+F''" and np = exact_numpy
      and ds = aspen_draw_settings and i = 0 and u = "''F''" and ?cur0.0 = start_cursor
      and ?rf0.0 = "[]" and cur = "start_cursor\<lparr>pos := (0, - 3)\<rparr>"
      and rf = "[draw_trunk (0, 0) (0, - 3) 2 (195, 185, 175)]" and x = "CHR ''F''"
      and st = "''F[+F]F''"]
  from t b(1) p
  have 1: "\<exists>cur' rf'. draw_loop exact_numpy aspen_draw_settings 0
                  (''F'' @ ''['' @ ''+F'' @ '']'' @ [CHR ''F'']) start_cursor []
        = Inr (cur', rf') \<and> pos cur' = (0, - 3) \<and> heading cur' = 90 \<and> queue cur' = []"
    by (simp add: start_cursor_def)
  from t b(2)
  have 2: "\<exists>cur' rf'. turtle_pass exact_numpy aspen_draw_settings ''F[+F]F'' = Inr (cur', rf') \<and>
             queue cur' = []"
    by blast
  from t exact_numpy_up
  have "turtle_pass exact_numpy aspen_draw_settings ''F[+F]F'' =
     Inr (start_cursor\<lparr>pos := (0, - (2 * trunk_segment_length aspen_draw_settings))\<rparr>,
          [draw_trunk (0, - trunk_segment_length aspen_draw_settings)
             (0, - (2 * trunk_segment_length aspen_draw_settings))
             (py_int (trunk_width aspen_draw_settings)) (trunk_color_generator aspen_draw_settings 5),
           draw_trunk (0, - trunk_segment_length aspen_draw_settings)
             (advance exact_numpy (0, - trunk_segment_length aspen_draw_settings)
                (90 + angle aspen_draw_settings) (trunk_segment_length aspen_draw_settings))
             (py_int (trunk_width aspen_draw_settings)) (trunk_color_generator aspen_draw_settings 3),
           draw_trunk (0, 0) (0, - trunk_segment_length aspen_draw_settings)
             (py_int (trunk_width aspen_draw_settings)) (trunk_color_generator aspen_draw_settings 0)])"
    by blast
  then have 3: "turtle_pass exact_numpy aspen_draw_settings ''F[+F]F'' =
     Inr (start_cursor\<lparr>pos := (0, - 6)\<rparr>,
          [draw_trunk (0, - 3) (0, - 6) 2 (195, 185, 175),
           draw_trunk (0, - 3) (advance exact_numpy (0, - 3) 105 3) 2 (195, 185, 175),
           draw_trunk (0, 0) (0, - 3) 2 (195, 185, 175)])"
    by (simp add: aspen_draw_settings_def py_int_two)
  from b p 1 2 3 exact_numpy_up show ?thesis by blast
qed


section \<open>Mutation of a plant\<close>

lemma update_draw_settings_fields:
  "update_draw_settings np p ds = Inr q \<Longrightarrow>
   length_p q = length_p p \<and> rules q = rules p \<and> axiom q = axiom p \<and>
   draw_settings q = draw_settings p \<and> state q = state p"
  by (auto simp: update_draw_settings_def slice_to_def wrap_index_def split: sum.splits)

lemma step_fields:
  "step p picks n = Inr q \<Longrightarrow>
   length_p q = length_p p \<and> rules q = rules p \<and> axiom q = axiom p \<and>
   draw_settings q = draw_settings p"
  by (auto simp: step_def split: sum.splits)

lemma regrow_fields:
  assumes "regrow np p picks = Inr q"
  shows "length_p q = length_p p \<and> rules q = rules p \<and> axiom q = axiom p \<and>
         draw_settings q = draw_settings p"
proof -
  from assms obtain g where g: "step (reset p) picks 4 = Inr g"
    and u: "update_draw_settings np g (draw_settings g) = Inr q"
    by (auto simp: regrow_def split: sum.splits)
  from step_fields [OF g] update_draw_settings_fields [OF u] show ?thesis
    by (simp add: reset_def)
qed


lemma Plant_new:
  assumes "Plant np h growth_rules ax ds len picks = (h', Inr new)"
  shows "new = length h \<and> length h' = Suc (length h) \<and> length_p (h' ! new) = len \<and>
         axiom (h' ! new) = ax \<and> draw_settings (h' ! new) = ds"
proof -
  from assms obtain length_rule grown where
    g: "regrow np \<lparr>alphabet = ''FfXx[]+-'', rules = growth_rules @ length_rule,
                          axiom = ax, state = ax, draw_settings = ds,
                          length_p = len, render_funcs = []\<rparr> picks = Inr grown"
    and h': "h' = (h @ [\<lparr>alphabet = ''FfXx[]+-'', rules = growth_rules @ length_rule,
                          axiom = ax, state = ax, draw_settings = ds,
                          length_p = len, render_funcs = []\<rparr>])[length h := grown]"
    and n: "new = length h"
    by (auto simp: Plant_def Let_def split: sum.splits)
  from regrow_fields [OF g] h' n show ?thesis by simp
qed


lemma get_mutation_new:
  assumes "get_mutation np h self d = (h', Inr new)"
  shows "new = length h" and "length h' = Suc (length h)"
    and "length_p (h' ! new) = uniform (max (1 / 2) (length_p (h ! self) - 35 / 100))
                                 (min (5 / 2) (length_p (h ! self) + 35 / 100)) (length_draw d)"
    and "axiom (h' ! new) = axiom (h ! self)"
    and "draw_settings (h' ! new) = draw_settings (h ! self)"
  using assms
  by (auto simp: get_mutation_def Let_def split: option.splits rule.splits sum.splits
        dest!: Plant_new)

lemma uniform_between:
  assumes "a \<le> b" "random_ok u"
  shows "a \<le> uniform a b u \<and> uniform a b u \<le> b"
proof -
  from assms have "0 \<le> (b - a) * u" by (simp add: random_ok_def)
  moreover from assms have "(b - a) * u \<le> (b - a) * 1"
    by (intro mult_left_mono) (simp_all add: random_ok_def)
  ultimately show ?thesis by (simp add: uniform_def)
qed

lemma sprout_branch: "mutate_branch ''F'' (branch_draw sprout_draws 0) = Inr ''fF''"
proof -
  have w: "mutation_weights ''F'' = [0, 0, 4, 0, 0, 3, 0, 0, 0, 2]"
    by (simp add: mutation_weights_def chars_of_def)
  show ?thesis
    by (simp add: mutate_branch_def sprout_draws_def example_draws_def get_mutated_branch_def w
          choices_def get_random_index_def randint_def slice_to_def slice_from_def wrap_index_def)
qed

lemma sprout_length:
  "uniform (max (1 / 2) (length_p sprout - 7 / 20)) (min (5 / 2) (length_p sprout + 7 / 20))
     (length_draw sprout_draws) = 3 / 2"
  by (simp add: sprout_def sprout_draws_def uniform_def)

lemma sprout_grow:
  "step_loop [(''X'', Fixed ''fF''), (''F'', Weighted [''F'', ''Ff'', ''FF'', ''FfF''] [0, 1 / 2, 1 / 2, 0])]
     (\<lambda>pass i. Suc 0) 0 4 ''X'' = Inr ''fFfff''"
  by (simp add: numeral_eq_Suc choices_def)

lemma sprout_turtle:
  "turtle_pass exact_numpy aspen_draw_settings ''fFfff''
     = Inr (start_cursor\<lparr>pos := (0, - 15)\<rparr>, [draw_trunk (0, 0) (0, - 15) 2 (195, 185, 175)])"
  by (simp add: turtle_pass_def draw_step_def start_cursor_def aspen_draw_settings_def
        advance_up py_int_two Let_def)

lemma sprout_mutation: "get_mutation exact_numpy [sprout] 0 sprout_draws = ([sprout, sprout_child], Inr 1)"
proof -
  have r: "map_of (rules sprout) ''X'' = Some (Fixed ''F'')" by (simp add: sprout_def)
  have g: "growth sprout_draws = (\<lambda>pass i. 1)" by (simp add: sprout_draws_def)
  have f: "axiom sprout = ''X''" "draw_settings sprout = aspen_draw_settings" by (simp_all add: sprout_def)
  show ?thesis
    by (simp add: get_mutation_def r sprout_branch sprout_length Plant_def get_length_rule_three_halves g f
          regrow_def reset_def step_def sprout_grow update_draw_settings_def sprout_turtle
          slice_to_def wrap_index_def sprout_child_def Let_def)
qed

text \<open>
  C7: when the length of the receiver lies in \<open>[0.5, 2.5]\<close>, the plant
  \<open>get_mutation\<close> returns has a length in the interval from
  \<open>max(0.5, length - 0.35)\<close> to \<open>min(2.5, length + 0.35)\<close>, hence in
  \<open>[0.5, 2.5]\<close> again.
\<close>

theorem get_mutation_length_in_range:
  assumes "self < length h" "1 / 2 \<le> length_p (h ! self)" "length_p (h ! self) \<le> 5 / 2"
    "random_ok (length_draw d)" "get_mutation np h self d = (h', Inr new)"
  shows "max (1 / 2) (length_p (h ! self) - 35 / 100) \<le> length_p (h' ! new) \<and>
         length_p (h' ! new) \<le> min (5 / 2) (length_p (h ! self) + 35 / 100) \<and>
         1 / 2 \<le> length_p (h' ! new) \<and> length_p (h' ! new) \<le> 5 / 2"
proof -
  define lo where "lo = max (1 / 2) (length_p (h ! self) - 35 / 100)"
  define hi where "hi = min (5 / 2) (length_p (h ! self) + 35 / 100)"
  from get_mutation_new(3) [OF assms(5)]
  have l: "length_p (h' ! new) = uniform lo hi (length_draw d)" by (simp add: lo_def hi_def)
  from assms(2,3) have "lo \<le> hi" unfolding lo_def hi_def by linarith
  from uniform_between [OF this assms(4)] l
  have b: "lo \<le> length_p (h' ! new)" "length_p (h' ! new) \<le> hi" by simp_all
  moreover have "1 / 2 \<le> lo" "hi \<le> 5 / 2" unfolding lo_def hi_def by linarith+
  ultimately show ?thesis unfolding lo_def hi_def by linarith
qed

theorem get_mutation_length_in_range_witness:
  "0 < length [sprout] \<and> 1 / 2 \<le> length_p ([sprout] ! 0) \<and> length_p ([sprout] ! 0) \<le> 5 / 2 \<and>
   random_ok (length_draw sprout_draws) \<and>
   get_mutation exact_numpy [sprout] 0 sprout_draws = ([sprout, sprout_child], Inr 1) \<and>
   length_p ([sprout, sprout_child] ! 1) = 3 / 2 \<and>
   1 / 2 \<le> length_p ([sprout, sprout_child] ! 1) \<and> length_p ([sprout, sprout_child] ! 1) \<le> 5 / 2"
proof -
  have h: "0 < length [sprout]" "1 / 2 \<le> length_p ([sprout] ! 0)" "length_p ([sprout] ! 0) \<le> 5 / 2"
    "random_ok (length_draw sprout_draws)"
    by (simp_all add: sprout_def sprout_draws_def random_ok_def)
  have v: "length_p ([sprout, sprout_child] ! 1) = 3 / 2" by (simp add: sprout_child_def)
  from get_mutation_length_in_range [OF h sprout_mutation] h sprout_mutation v
  show ?thesis by simp
qed







end
